theory Spec2Isabelle
  imports Main "HOL-Library.Word"
begin

unbundle bit_operations_syntax

section \<open>Trombinoscope: data model\<close>

text \<open>
  The sketch \<^verbatim>\<open>trombinoscope.ino\<close> keeps all of its state in global variables of fixed
  width. They are collected in one record; every function of the sketch takes the record and
  returns the updated one. Unsigned arithmetic wraps, as \<open>uint8_t\<close> and \<open>uint32_t\<close> do.
\<close>

type_synonym u8 = "8 word"
type_synonym u16 = "16 word"
type_synonym u32 = "32 word"

subsection \<open>Configuration constants\<close>

definition NUM_LEDS :: nat where
  "NUM_LEDS = 30"

definition UsedLEDs :: "u16 list" where
  "UsedLEDs = [0, 2, 4, 6, 8, 10, 12, 14, 16, 18, 20]"

text \<open>\<^verbatim>\<open>sizeof(UsedLEDs) / sizeof(UsedLEDs[0])\<close>, stored in a \<open>uint8_t\<close>.\<close>

definition PEOPLE_NB :: u8 where
  "PEOPLE_NB = of_nat (length UsedLEDs)"

text \<open>
  The timing constants are \<open>uint16_t\<close> in the sketch (\<open>HOLD_MS\<close> is \<open>uint32_t\<close>); every
  use compares them with, or adds them to, a \<open>uint32_t\<close>, so they are given here at the
  width they are promoted to.
\<close>

definition DEBOUNCE_MS :: u32 where "DEBOUNCE_MS = 35"
definition LONG_PRESS_MS :: u32 where "LONG_PRESS_MS = 800"
definition COUNT_WINDOW_MS :: u32 where "COUNT_WINDOW_MS = 900"
definition IDLE_STEP_MS :: u32 where "IDLE_STEP_MS = 20"
definition ANIM_STEP_MS :: u32 where "ANIM_STEP_MS = 55"
definition ANIM_MS :: u32 where "ANIM_MS = 1800"
definition HOLD_MS :: u32 where "HOLD_MS = 10000"
definition RAINBOW_SPACING :: u8 where "RAINBOW_SPACING = 20"

definition MAX_REQUEST :: u8 where
  "MAX_REQUEST = PEOPLE_NB"

definition MAX_SEL :: u8 where
  "MAX_SEL = 32"

text \<open>Pin levels: with \<open>INPUT_PULLUP\<close>, \<open>HIGH\<close> is released and \<open>LOW\<close> is pressed.\<close>

definition HIGH :: bool where "HIGH = True"
definition LOW :: bool where "LOW = False"

subsection \<open>State\<close>

datatype State = IDLE | COUNTING | ANIMATING | SHOW

text \<open>
  An access outside an array is undefined behaviour in C++; the model makes it a value.
\<close>

datatype fault = OutOfBounds

text \<open>
  The globals of the sketch. The strip object is its pixel buffer \<open>pixels\<close>
  (\<open>NUM_LEDS\<close> packed colours) and the frame last sent to the hardware by
  \<open>strip.show()\<close>, \<open>shown\<close>.
\<close>

record device =
  state :: State
  nowMs :: u32
  lastIdleStep :: u32
  lastAnimStep :: u32
  stateEnterMs :: u32
  lastButtonEdge :: u32
  lastButtonLevel :: bool
  longPressArmed :: bool
  buttonPressMs :: u32
  rainbowOffset :: u8
  requestedCount :: u8
  countWindowEnds :: u32
  selectedIdx :: "u8 list"
  selectedCount :: u8
  pixels :: "u32 list"
  shown :: "u32 list"

subsection \<open>The LED strip driver\<close>

text \<open>
  Modelled from the spec: the LED-strip driver is an external capability that exposes
  "set pixel color by index" and "flush frame to hardware" (the Adafruit NeoPixel library).
  \<open>Color\<close> packs three bytes into \<open>0x00RRGGBB\<close>; \<open>setPixelColor\<close> ignores an index
  beyond the strip; \<open>clear\<close> zeroes the buffer; \<open>show\<close> copies the buffer to \<open>shown\<close>.
\<close>

definition Color :: "u8 \<Rightarrow> u8 \<Rightarrow> u8 \<Rightarrow> u32" where
  "Color r g b = push_bit 16 (ucast r) OR push_bit 8 (ucast g) OR ucast b"

definition setPixelColor :: "u32 list \<Rightarrow> u16 \<Rightarrow> u32 \<Rightarrow> u32 list" where
  "setPixelColor px n c = (if unat n < length px then px[unat n := c] else px)"

definition clear :: "u32 list \<Rightarrow> u32 list" where
  "clear px = replicate (length px) 0"

text \<open>A checked array read.\<close>

definition rd :: "'a list \<Rightarrow> nat \<Rightarrow> fault + 'a" where
  "rd xs i = (if i < length xs then Inr (xs ! i) else Inl OutOfBounds)"

subsection \<open>The random source\<close>

text \<open>
  Modelled from the spec: \<open>uniformRandom(low, highExclusive)\<close> is a boundary capability
  (Arduino's \<open>random(min, max)\<close>) that returns an integer in \<open>[low, highExclusive)\<close>.
  The generator is a stream of raw draws \<open>rnd\<close> read at a cursor; \<open>random\<close> reduces
  the draw at the cursor into the range, as the Arduino core does
  (\<open>min\<close> when the range is empty).
\<close>

definition random :: "(nat \<Rightarrow> nat) \<Rightarrow> nat \<Rightarrow> nat \<Rightarrow> nat \<Rightarrow> nat" where
  "random rnd i lo hi = (if lo \<ge> hi then lo else lo + rnd i mod (hi - lo))"

section \<open>Colour helper\<close>

text \<open>
  \<open>colorWheel\<close>: the position is inverted first. The sketch computes \<open>pos * 3\<close> and
  \<open>255 - pos * 3\<close> in \<open>int\<close> and converts them to the \<open>uint8_t\<close> parameters of
  \<open>Color\<close>; the model computes the same bytes in 8-bit arithmetic.
\<close>

definition colorWheel :: "u8 \<Rightarrow> u32" where
  "colorWheel pos0 =
     (let pos = 255 - pos0 in
      if pos < 85 then Color (255 - pos * 3) 0 (pos * 3)
      else if pos < 170 then
        (let pos = pos - 85 in Color 0 (pos * 3) (255 - pos * 3))
      else
        (let pos = pos - 170 in Color (pos * 3) (255 - pos * 3) 0))"

section \<open>Selection helpers\<close>

text \<open>\<open>contains\<close>: the loop \<open>for (i = 0; i < len; i++) if (arr[i] == val) return true\<close>.\<close>

fun contains_loop :: "u8 list \<Rightarrow> nat list \<Rightarrow> u8 \<Rightarrow> fault + bool" where
  "contains_loop arr [] val = Inr False"
| "contains_loop arr (i # is) val =
     (case rd arr i of
        Inl e \<Rightarrow> Inl e
      | Inr x \<Rightarrow> if x = val then Inr True else contains_loop arr is val)"

definition contains :: "u8 list \<Rightarrow> u8 \<Rightarrow> u8 \<Rightarrow> fault + bool" where
  "contains arr len val = contains_loop arr [0..<unat len] val"

text \<open>
  \<open>pickUniqueRandom\<close>: the \<open>while (count < k)\<close> loop has no retry bound, so it is a
  partial function: \<open>None\<close> is the loop that never ends. The arguments are the random
  stream and its cursor, \<open>k\<close>, the array \<open>out\<close> and the local \<open>count\<close>; the result is
  the array and the cursor after the last draw.
\<close>

partial_function (option) pickLoop ::
  "(nat \<Rightarrow> nat) \<Rightarrow> nat \<Rightarrow> u8 \<Rightarrow> u8 list \<Rightarrow> u8 \<Rightarrow> (fault + u8 list \<times> nat) option" where
  "pickLoop rnd i k out count =
     (if count < k then
        (let r = (of_nat (random rnd i 0 (unat PEOPLE_NB)) :: u8) in
         case contains out count r of
           Inl e \<Rightarrow> Some (Inl e)
         | Inr dup \<Rightarrow>
             (if dup then pickLoop rnd (Suc i) k out count
              else if unat count < length out
              then pickLoop rnd (Suc i) k (out[unat count := r]) (count + 1)
              else Some (Inl OutOfBounds)))
      else Some (Inr (out, i)))"

declare pickLoop.simps [code]

definition pickUniqueRandom ::
  "(nat \<Rightarrow> nat) \<Rightarrow> nat \<Rightarrow> u8 \<Rightarrow> u8 list \<Rightarrow> (fault + u8 list \<times> nat) option" where
  "pickUniqueRandom rnd i k out = pickLoop rnd i k out 0"

section \<open>Button handling\<close>

text \<open>
  \<open>pollButton\<close> reads the pin twice: \<open>level\<close> for the edge detection and \<open>level2\<close> in
  the held-down test. It returns the event (0 nothing, 1 short, 2 long) and the new state.
\<close>

definition pollButton :: "device \<Rightarrow> bool \<Rightarrow> bool \<Rightarrow> u8 \<times> device" where
  "pollButton st level level2 =
     (let (evt, st1) =
        (if level \<noteq> lastButtonLevel st then
           (let t = nowMs st in
            if t - lastButtonEdge st > DEBOUNCE_MS then
              (let sa = st\<lparr>lastButtonEdge := t\<rparr>;
                   (ev, sb) =
                     (if level = LOW then
                        (0, sa\<lparr>buttonPressMs := t, longPressArmed := True\<rparr>)
                      else if longPressArmed sa then
                        (let pressDur = t - buttonPressMs sa in
                         (if pressDur \<ge> LONG_PRESS_MS then 2 else 1,
                          sa\<lparr>longPressArmed := False\<rparr>))
                      else (0, sa))
               in (ev, sb\<lparr>lastButtonLevel := level\<rparr>))
            else (0, st))
         else (0, st))
      in if longPressArmed st1 \<and> nowMs st1 - buttonPressMs st1 \<ge> LONG_PRESS_MS \<and> level2 = LOW
         then (2, st1\<lparr>longPressArmed := False\<rparr>)
         else (evt, st1))"

section \<open>Rendering\<close>

definition renderIdle :: "device \<Rightarrow> device" where
  "renderIdle st =
     (if nowMs st - lastIdleStep st \<ge> IDLE_STEP_MS then
        (let off = rainbowOffset st + 1;
             px = fold (\<lambda>i px. setPixelColor px (UsedLEDs ! i)
                          (colorWheel (off + of_nat i * RAINBOW_SPACING)))
                    [0..<unat PEOPLE_NB] (pixels st)
         in st\<lparr>rainbowOffset := off, pixels := px, shown := px, lastIdleStep := nowMs st\<rparr>)
      else st)"

text \<open>
  \<open>renderAnimating\<close> draws three random bytes per person and returns the cursor of the
  random stream with the state. C++ does not fix the order in which the three arguments
  \<open>random(0, 255)\<close> of \<open>strip.Color\<close> are evaluated; the model takes them right to
  left, the blue byte first, as compiled code commonly does. Either way three draws are
  consumed per person.
\<close>

definition stormPixel :: "(nat \<Rightarrow> nat) \<Rightarrow> nat \<Rightarrow> u32" where
  "stormPixel rnd i =
     Color (of_nat (random rnd (i + 2) 0 255)) (of_nat (random rnd (i + 1) 0 255))
           (of_nat (random rnd i 0 255))"

definition renderAnimating :: "device \<Rightarrow> (nat \<Rightarrow> nat) \<Rightarrow> nat \<Rightarrow> device \<times> nat" where
  "renderAnimating st rnd i =
     (if nowMs st - lastAnimStep st \<ge> ANIM_STEP_MS then
        (let px = fold (\<lambda>j px. setPixelColor px (UsedLEDs ! j) (stormPixel rnd (i + 3 * j)))
                    [0..<unat PEOPLE_NB] (pixels st)
         in (st\<lparr>pixels := px, shown := px, lastAnimStep := nowMs st\<rparr>,
             i + 3 * unat PEOPLE_NB))
      else (st, i))"

text \<open>
  \<open>renderShowSelection\<close>: clear, then one white pixel for each of the first
  \<open>selectedCount\<close> entries of \<open>selectedIdx\<close>, then show. Both array reads are checked.
\<close>

definition white :: u32 where
  "white = Color 255 255 255"

fun showLoop :: "u8 list \<Rightarrow> nat list \<Rightarrow> u32 list \<Rightarrow> fault + u32 list" where
  "showLoop sel [] px = Inr px"
| "showLoop sel (i # is) px =
     (case rd sel i of
        Inl e \<Rightarrow> Inl e
      | Inr idx \<Rightarrow>
          (case rd UsedLEDs (unat idx) of
             Inl e \<Rightarrow> Inl e
           | Inr led \<Rightarrow> showLoop sel is (setPixelColor px led white)))"

definition renderShowSelection :: "device \<Rightarrow> fault + device" where
  "renderShowSelection st =
     (case showLoop (selectedIdx st) [0..<unat (selectedCount st)] (clear (pixels st)) of
        Inl e \<Rightarrow> Inl e
      | Inr px \<Rightarrow> Inr (st\<lparr>pixels := px, shown := px\<rparr>))"

section \<open>State transitions\<close>

definition enterState :: "device \<Rightarrow> State \<Rightarrow> fault + device" where
  "enterState st s =
     (let st1 = st\<lparr>state := s, stateEnterMs := nowMs st\<rparr> in
      case s of
        IDLE \<Rightarrow> Inr st1
      | COUNTING \<Rightarrow> Inr (st1\<lparr>countWindowEnds := nowMs st1 + COUNT_WINDOW_MS\<rparr>)
      | ANIMATING \<Rightarrow> Inr (st1\<lparr>lastAnimStep := 0\<rparr>)
      | SHOW \<Rightarrow> renderShowSelection st1)"

text \<open>A step that cannot diverge, with the cursor of the random stream unchanged.\<close>

definition ret :: "nat \<Rightarrow> fault + device \<Rightarrow> (fault + device \<times> nat) option" where
  "ret i r = (case r of Inl e \<Rightarrow> Some (Inl e) | Inr st \<Rightarrow> Some (Inr (st, i)))"

subsection \<open>The four cases of the switch in \<open>loop\<close>\<close>

definition caseIdle :: "device \<Rightarrow> u8 \<Rightarrow> fault + device" where
  "caseIdle st0 btn =
     (let st = renderIdle st0 in
      if btn = 2 then
        (let px = clear (pixels st) in Inr (st\<lparr>pixels := px, shown := px\<rparr>))
      else if btn = 1 then enterState (st\<lparr>requestedCount := 1\<rparr>) COUNTING
      else Inr st)"

text \<open>
  In \<open>COUNTING\<close>, the statement \<open>if (btn == 1) { ... }\<close>: one more person, up to
  \<open>MAX_REQUEST\<close>, and a new window.
\<close>

definition countPress :: "device \<Rightarrow> u8 \<Rightarrow> device" where
  "countPress st btn =
     (if btn = 1 then
        (let sa = (if requestedCount st < MAX_REQUEST
                   then st\<lparr>requestedCount := requestedCount st + 1\<rparr> else st)
         in sa\<lparr>countWindowEnds := nowMs sa + COUNT_WINDOW_MS\<rparr>)
      else st)"

definition caseCounting :: "device \<Rightarrow> u8 \<Rightarrow> fault + device" where
  "caseCounting st0 btn =
     (let st = renderIdle st0 in
      if btn = 2 then enterState (st\<lparr>requestedCount := 0\<rparr>) IDLE
      else
        (let st1 = countPress st btn
         in if sint (nowMs st1 - countWindowEnds st1) \<ge> 0 then
              (let sb = (if requestedCount st1 = 0 then st1\<lparr>requestedCount := 1\<rparr> else st1);
                   sc = (if requestedCount sb > PEOPLE_NB
                         then sb\<lparr>requestedCount := PEOPLE_NB\<rparr> else sb)
               in enterState sc ANIMATING)
            else Inr st1))"

text \<open>
  In \<open>ANIMATING\<close>, the two statements that compute \<open>selectedCount\<close> from
  \<open>requestedCount\<close>: at most \<open>PEOPLE_NB\<close>, and at most \<open>MAX_SEL\<close>.
\<close>

definition clampCount :: "u8 \<Rightarrow> u8" where
  "clampCount rc =
     (let n = (if rc > PEOPLE_NB then PEOPLE_NB else rc)
      in if n > MAX_SEL then MAX_SEL else n)"

definition caseAnimating ::
  "device \<Rightarrow> u8 \<Rightarrow> (nat \<Rightarrow> nat) \<Rightarrow> nat \<Rightarrow> (fault + device \<times> nat) option" where
  "caseAnimating st0 btn rnd i0 =
     (let (st, i) = renderAnimating st0 rnd i0 in
      if btn = 2 then ret i (enterState st IDLE)
      else if nowMs st - stateEnterMs st \<ge> ANIM_MS then
        (let st1 = st\<lparr>selectedCount := clampCount (requestedCount st)\<rparr>
         in case pickUniqueRandom rnd i (selectedCount st1) (selectedIdx st1) of
              None \<Rightarrow> None
            | Some (Inl e) \<Rightarrow> Some (Inl e)
            | Some (Inr (out, i')) \<Rightarrow> ret i' (enterState (st1\<lparr>selectedIdx := out\<rparr>) SHOW))
      else Some (Inr (st, i)))"

definition caseShow :: "device \<Rightarrow> u8 \<Rightarrow> fault + device" where
  "caseShow st btn =
     (if btn = 2 then enterState st IDLE
      else if nowMs st - stateEnterMs st \<ge> HOLD_MS then enterState st IDLE
      else Inr st)"

definition dispatch ::
  "device \<Rightarrow> u8 \<Rightarrow> (nat \<Rightarrow> nat) \<Rightarrow> nat \<Rightarrow> (fault + device \<times> nat) option" where
  "dispatch st btn rnd i =
     (case state st of
        IDLE \<Rightarrow> ret i (caseIdle st btn)
      | COUNTING \<Rightarrow> ret i (caseCounting st btn)
      | ANIMATING \<Rightarrow> caseAnimating st btn rnd i
      | SHOW \<Rightarrow> ret i (caseShow st btn))"

section \<open>Setup and loop\<close>

text \<open>The globals as they are initialised, before \<open>setup\<close> runs.\<close>

definition boot :: device where
  "boot = \<lparr>state = IDLE, nowMs = 0, lastIdleStep = 0, lastAnimStep = 0, stateEnterMs = 0,
     lastButtonEdge = 0, lastButtonLevel = HIGH, longPressArmed = False, buttonPressMs = 0,
     rainbowOffset = 0, requestedCount = 0, countWindowEnds = 0,
     selectedIdx = replicate (unat MAX_SEL) 0, selectedCount = 0,
     pixels = replicate NUM_LEDS 0, shown = replicate NUM_LEDS 0\<rparr>"

text \<open>
  \<open>setup()\<close> (named \<open>setup_sketch\<close> here) clears the strip and halts in an endless
  loop (\<open>None\<close>) when a person's LED is beyond the strip; otherwise it enters \<open>IDLE\<close>.
\<close>

definition setup_sketch :: "(fault + device) option" where
  "setup_sketch =
     (let px = clear (pixels boot);
          st = boot\<lparr>pixels := px, shown := px\<rparr>
      in if \<exists>i \<in> set [0..<unat PEOPLE_NB]. unat (UsedLEDs ! i) \<ge> NUM_LEDS then None
         else Some (enterState st IDLE))"

text \<open>
  One iteration of \<open>loop\<close>: \<open>t\<close> is the value of \<open>millis()\<close>, \<open>level\<close> and \<open>level2\<close>
  the two pin reads of \<open>pollButton\<close>.
\<close>

definition loop ::
  "device \<Rightarrow> u32 \<Rightarrow> bool \<Rightarrow> bool \<Rightarrow> (nat \<Rightarrow> nat) \<Rightarrow> nat
     \<Rightarrow> (fault + device \<times> nat) option" where
  "loop st t level level2 rnd i =
     (let (btn, st1) = pollButton (st\<lparr>nowMs := t\<rparr>) level level2 in
      dispatch st1 btn rnd i)"

subsection \<open>Runs\<close>

text \<open>
  The sketch after \<open>setup\<close> is \<open>loop\<close> called again and again. A tick is what one call
  reads from outside: the clock and the two pin reads. \<open>run\<close> threads the state and the
  cursor of the random stream through a list of ticks; it stops at a fault and is \<open>None\<close>
  when a call of \<open>loop\<close> does not return.
\<close>

type_synonym tick = "u32 \<times> bool \<times> bool"

fun run :: "device \<Rightarrow> (nat \<Rightarrow> nat) \<Rightarrow> nat \<Rightarrow> tick list \<Rightarrow> (fault + device \<times> nat) option" where
  "run st rnd i [] = Some (Inr (st, i))"
| "run st rnd i ((t, level, level2) # ts) =
     (case loop st t level level2 rnd i of
        None \<Rightarrow> None
      | Some (Inl e) \<Rightarrow> Some (Inl e)
      | Some (Inr (st', i')) \<Rightarrow> run st' rnd i' ts)"

text \<open>
  The states the sketch can be in between two calls of \<open>loop\<close>, whatever the clock, the
  button and the random source do.
\<close>

inductive reachable :: "device \<Rightarrow> bool" where
  reachable_setup: "setup_sketch = Some (Inr st) \<Longrightarrow> reachable st"
| reachable_loop:
    "reachable st \<Longrightarrow> loop st t level level2 rnd i = Some (Inr (st', i')) \<Longrightarrow> reachable st'"

subsection \<open>Predicates of the specification\<close>

text \<open>
  The first \<open>count\<close> cells of \<open>out\<close> hold a selection: they exist, they are pairwise
  distinct, and each is the index of a person.
\<close>

definition picked :: "u8 list \<Rightarrow> u8 \<Rightarrow> bool" where
  "picked out count \<longleftrightarrow>
     unat count \<le> length out \<and> distinct (take (unat count) out)
     \<and> (\<forall>x \<in> set (take (unat count) out). x < PEOPLE_NB)"

text \<open>
  A random stream in which every person keeps coming: after every position, each index is
  drawn again. A uniform source has this property with probability 1.
\<close>

definition recurrent :: "(nat \<Rightarrow> nat) \<Rightarrow> bool" where
  "recurrent rnd \<longleftrightarrow>
     (\<forall>i v. v < unat PEOPLE_NB \<longrightarrow> (\<exists>j \<ge> i. random rnd j 0 (unat PEOPLE_NB) = v))"

subsection \<open>The two halves of \<open>loop\<close> on their own\<close>

text \<open>
  \<open>loop\<close> first classifies the button (\<open>nowMs = millis(); btn = pollButton();\<close>) and
  then runs the switch on \<open>btn\<close>. The switch never writes the variables of the button
  handler, and the button handler reads nothing else but \<open>nowMs\<close>. \<open>pollTicks\<close> is the
  first half along a list of ticks, with the events it reports; \<open>feed\<close> is the second half
  along a list of clock values and events.
\<close>

fun pollTicks :: "device \<Rightarrow> tick list \<Rightarrow> u8 list \<times> device" where
  "pollTicks st [] = ([], st)"
| "pollTicks st ((t, level, level2) # ts) =
     (let (evt, st1) = pollButton (st\<lparr>nowMs := t\<rparr>) level level2;
          (evts, st2) = pollTicks st1 ts
      in (evt # evts, st2))"

fun feed ::
  "device \<Rightarrow> (nat \<Rightarrow> nat) \<Rightarrow> nat \<Rightarrow> (u32 \<times> u8) list \<Rightarrow> (fault + device \<times> nat) option" where
  "feed st rnd i [] = Some (Inr (st, i))"
| "feed st rnd i ((t, btn) # es) =
     (case dispatch (st\<lparr>nowMs := t\<rparr>) btn rnd i of
        None \<Rightarrow> None
      | Some (Inl e) \<Rightarrow> Some (Inl e)
      | Some (Inr (st', i')) \<Rightarrow> feed st' rnd i' es)"

text \<open>The events that are not 0: what the button handler reported.\<close>

definition reported :: "u8 list \<Rightarrow> u8 list" where
  "reported evts = filter (\<lambda>e. e \<noteq> 0) evts"

text \<open>A short press at time \<open>p\<close> and the calls without an event that follow it.\<close>

definition pressEvents :: "u32 \<times> u32 list \<Rightarrow> (u32 \<times> u8) list" where
  "pressEvents pq = (fst pq, 1) # map (\<lambda>q. (q, 0)) (snd pq)"

text \<open>The button is down since the edge accepted at \<open>t1\<close>.\<close>

definition down :: "device \<Rightarrow> u32 \<Rightarrow> bool" where
  "down st t1 \<longleftrightarrow> lastButtonLevel st = LOW \<and> lastButtonEdge st = t1 \<and> buttonPressMs st = t1"

text \<open>The state \<open>s\<close> with the variables of the button handler taken from \<open>b\<close>.\<close>

definition withButton :: "device \<Rightarrow> device \<Rightarrow> device" where
  "withButton b s =
     s\<lparr>lastButtonLevel := lastButtonLevel b, lastButtonEdge := lastButtonEdge b,
       longPressArmed := longPressArmed b, buttonPressMs := buttonPressMs b\<rparr>"

section \<open>Frame properties\<close>

text \<open>What the button handler and the renderers leave alone.\<close>

lemma enterState_IDLE:
  "enterState st IDLE = Inr (st\<lparr>state := IDLE, stateEnterMs := nowMs st\<rparr>)"
  by (simp add: enterState_def)

lemma pollButton_frame:
  "state (snd (pollButton st l l2)) = state st"
  "nowMs (snd (pollButton st l l2)) = nowMs st"
  "requestedCount (snd (pollButton st l l2)) = requestedCount st"
  "selectedCount (snd (pollButton st l l2)) = selectedCount st"
  "selectedIdx (snd (pollButton st l l2)) = selectedIdx st"
  "pixels (snd (pollButton st l l2)) = pixels st"
  "countWindowEnds (snd (pollButton st l l2)) = countWindowEnds st"
  "stateEnterMs (snd (pollButton st l l2)) = stateEnterMs st"
  by (simp_all add: pollButton_def Let_def split: prod.splits)

lemma renderIdle_frame:
  "state (renderIdle st) = state st"
  "nowMs (renderIdle st) = nowMs st"
  "requestedCount (renderIdle st) = requestedCount st"
  "selectedCount (renderIdle st) = selectedCount st"
  "selectedIdx (renderIdle st) = selectedIdx st"
  "countWindowEnds (renderIdle st) = countWindowEnds st"
  "stateEnterMs (renderIdle st) = stateEnterMs st"
  by (simp_all add: renderIdle_def Let_def)

lemma renderAnimating_frame:
  "state (fst (renderAnimating st rnd i)) = state st"
  "nowMs (fst (renderAnimating st rnd i)) = nowMs st"
  "requestedCount (fst (renderAnimating st rnd i)) = requestedCount st"
  "selectedCount (fst (renderAnimating st rnd i)) = selectedCount st"
  "selectedIdx (fst (renderAnimating st rnd i)) = selectedIdx st"
  "stateEnterMs (fst (renderAnimating st rnd i)) = stateEnterMs st"
  by (simp_all add: renderAnimating_def Let_def)

section \<open>Long press\<close>





section \<open>The show frame\<close>

lemma length_setPixelColor [simp]: "length (setPixelColor px n c) = length px"
  by (simp add: setPixelColor_def)

lemma nth_setPixelColor:
  "pos < length px \<Longrightarrow> setPixelColor px n c ! pos = (if pos = unat n then c else px ! pos)"
  by (auto simp: setPixelColor_def nth_list_update)

lemma length_fold_setPixelColor [simp]:
  "length (fold (\<lambda>x px. setPixelColor px (f x) (g x)) xs px) = length px"
  by (induction xs arbitrary: px) simp_all

lemma nth_fold_white:
  "pos < length px \<Longrightarrow>
   fold (\<lambda>x px. setPixelColor px (f x) c) xs px ! pos
     = (if pos \<in> (\<lambda>x. unat (f x)) ` set xs then c else px ! pos)"
proof (induction xs arbitrary: px)
  case Nil
  then show ?case by simp
next
  case (Cons x xs)
  have "pos < length (setPixelColor px (f x) c)" using Cons.prems by simp
  from Cons.IH [OF this] show ?case
    using Cons.prems by (auto simp: nth_setPixelColor)
qed

lemma showLoop_fold:
  "\<forall>i \<in> set js. i < length sel \<and> unat (sel ! i) < length UsedLEDs \<Longrightarrow>
   showLoop sel js px
     = Inr (fold (\<lambda>x px. setPixelColor px (UsedLEDs ! unat x) white) (map (nth sel) js) px)"
  by (induction js arbitrary: px) (simp_all add: rd_def)

lemma map_nth_upt_take: "n \<le> length xs \<Longrightarrow> map (nth xs) [0..<n] = take n xs"
  by (simp add: list_eq_iff_nth_eq)

lemma unat_PEOPLE_NB: "unat PEOPLE_NB = length UsedLEDs"
  by (simp add: PEOPLE_NB_def UsedLEDs_def)

lemma renderShowSelection_fold:
  assumes "unat (selectedCount st) \<le> length (selectedIdx st)"
    and "\<forall>x \<in> set (take (unat (selectedCount st)) (selectedIdx st)). x < PEOPLE_NB"
  shows "renderShowSelection st =
     Inr (st\<lparr>pixels := fold (\<lambda>x px. setPixelColor px (UsedLEDs ! unat x) white)
                          (take (unat (selectedCount st)) (selectedIdx st)) (clear (pixels st)),
              shown := fold (\<lambda>x px. setPixelColor px (UsedLEDs ! unat x) white)
                          (take (unat (selectedCount st)) (selectedIdx st)) (clear (pixels st))\<rparr>)"
proof -
  let ?n = "unat (selectedCount st)"
  have "\<forall>i \<in> set [0..<?n]. i < length (selectedIdx st)
          \<and> unat (selectedIdx st ! i) < length UsedLEDs"
  proof
    fix i assume "i \<in> set [0..<?n]"
    then have i: "i < ?n" by simp
    then have "selectedIdx st ! i \<in> set (take ?n (selectedIdx st))"
      using assms(1) by (metis in_set_conv_nth length_take min.absorb2 nth_take)
    then have "selectedIdx st ! i < PEOPLE_NB" using assms(2) by blast
    then show "i < length (selectedIdx st) \<and> unat (selectedIdx st ! i) < length UsedLEDs"
      using i assms(1) by (simp add: word_less_nat_alt unat_PEOPLE_NB)
  qed
  from showLoop_fold [OF this] show ?thesis
    using assms(1) by (simp add: renderShowSelection_def map_nth_upt_take)
qed

text \<open>
  Claim C8. When the first \<open>selectedCount\<close> entries of \<open>selectedIdx\<close> exist and are
  indices of people, \<open>renderShowSelection\<close> returns without a fault, the frame it sends to
  the strip is the pixel buffer, and a pixel of the buffer is pure white,
  \<open>Color 255 255 255\<close>, which is \<open>0xFFFFFF\<close>, exactly when it is the LED that
  \<open>UsedLEDs\<close> gives to one of the selected indices; every other pixel is off (0).
\<close>

theorem show_frame:
  assumes "unat (selectedCount st) \<le> length (selectedIdx st)"
    and "\<forall>x \<in> set (take (unat (selectedCount st)) (selectedIdx st)). x < PEOPLE_NB"
  shows "(\<exists>st'. renderShowSelection st = Inr st'
           \<and> shown st' = pixels st' \<and> length (pixels st') = length (pixels st)
           \<and> (\<forall>pos < length (pixels st). pixels st' ! pos =
                 (if pos \<in> (\<lambda>x. unat (UsedLEDs ! unat x))
                              ` set (take (unat (selectedCount st)) (selectedIdx st))
                  then Color 255 255 255 else 0)))
         \<and> Color 255 255 255 = 16777215"
proof
  show "\<exists>st'. renderShowSelection st = Inr st'
           \<and> shown st' = pixels st' \<and> length (pixels st') = length (pixels st)
           \<and> (\<forall>pos < length (pixels st). pixels st' ! pos =
                 (if pos \<in> (\<lambda>x. unat (UsedLEDs ! unat x))
                              ` set (take (unat (selectedCount st)) (selectedIdx st))
                  then Color 255 255 255 else 0))"
    unfolding renderShowSelection_fold [OF assms]
    by (simp add: nth_fold_white clear_def white_def)
  show "Color 255 255 255 = 16777215"
    by (simp add: Color_def)
qed

text \<open>
  The selection \<open>{2, 5}\<close>: LEDs 4 and 10 hold \<open>0xFFFFFF\<close>, the others are off.
\<close>

theorem show_frame_witness:
  "\<exists>st'. renderShowSelection (boot\<lparr>selectedIdx := [2, 5] @ replicate 30 0, selectedCount := 2\<rparr>)
            = Inr st'
     \<and> shown st' = pixels st'
     \<and> pixels st' ! 4 = 16777215 \<and> pixels st' ! 10 = 16777215
     \<and> pixels st' ! 0 = 0 \<and> pixels st' ! 2 = 0 \<and> pixels st' ! 5 = 0 \<and> pixels st' ! 29 = 0"
proof -
  let ?X = "boot\<lparr>selectedIdx := [2, 5] @ replicate 30 0, selectedCount := 2\<rparr>"
  have h1: "unat (selectedCount ?X) \<le> length (selectedIdx ?X)" by simp
  have h2: "\<forall>x \<in> set (take (unat (selectedCount ?X)) (selectedIdx ?X)). x < PEOPLE_NB"
    by (simp add: PEOPLE_NB_def UsedLEDs_def)
  have len: "length (pixels ?X) = 30" by (simp add: boot_def NUM_LEDS_def)
  from show_frame [OF h1 h2] obtain st' where
    r: "renderShowSelection ?X = Inr st'" "shown st' = pixels st'" and
    px: "\<forall>pos < length (pixels ?X). pixels st' ! pos =
          (if pos \<in> (\<lambda>x. unat (UsedLEDs ! unat x))
                       ` set (take (unat (selectedCount ?X)) (selectedIdx ?X))
           then Color 255 255 255 else 0)" and
    w: "Color 255 255 255 = 16777215"
    by blast
  have img: "(\<lambda>x. unat (UsedLEDs ! unat x))
               ` set (take (unat (selectedCount ?X)) (selectedIdx ?X)) = {4, 10}"
    by (simp add: UsedLEDs_def)
  have "pixels st' ! 4 = 16777215" "pixels st' ! 10 = 16777215" "pixels st' ! 0 = 0"
    "pixels st' ! 2 = 0" "pixels st' ! 5 = 0" "pixels st' ! 29 = 0"
    using px unfolding img len w by simp_all
  with r show ?thesis by blast
qed

section \<open>The hue wheel\<close>

lemma colorWheel_inv_lo: "(p::u8) \<le> 85 \<Longrightarrow> \<not> (255 - p < 85) \<and> \<not> (255 - p < 170)"
  by (unat_arith; simp)

lemma colorWheel_inv_mid:
  "\<not> (p::u8) \<le> 85 \<Longrightarrow> p \<le> 170 \<Longrightarrow> \<not> (255 - p < 85) \<and> (255 - p < 170)"
  by (unat_arith; simp)

lemma colorWheel_inv_hi: "\<not> (p::u8) \<le> 170 \<Longrightarrow> (255 - p < 85)"
  by (unat_arith; simp)

lemma colorWheel_word:
  "colorWheel p =
     (if p \<le> 85 then Color (255 - 3 * p) (3 * p) 0
      else if p \<le> 170 then Color 0 (255 - 3 * (p - 85)) (3 * (p - 85))
      else Color (3 * (p - 170)) 0 (255 - 3 * (p - 170)))"
proof -
  consider "p \<le> 85" | "\<not> p \<le> 85" "p \<le> 170" | "\<not> p \<le> 170" by blast
  then show ?thesis
  proof cases
    case 1
    then show ?thesis using colorWheel_inv_lo [OF 1]
      by (simp add: colorWheel_def Let_def algebra_simps)
  next
    case 2
    then show ?thesis using colorWheel_inv_mid [OF 2]
      by (simp add: colorWheel_def Let_def algebra_simps)
  next
    case 3
    then have "\<not> p \<le> 85" by unat_arith
    with 3 show ?thesis using colorWheel_inv_hi [OF 3]
      by (simp add: colorWheel_def Let_def algebra_simps)
  qed
qed

text \<open>
  Claim C3, as amended. The three segments of the wheel, on the position \<open>p\<close> that
  \<open>colorWheel\<close> is called with: for \<open>p\<close> in 0..84 the colour goes from red
  \<open>(255, 0, 0)\<close> towards green, for \<open>p\<close> in 85..169 from green \<open>(0, 255, 0)\<close> towards
  blue, and for \<open>p\<close> in 170..255 from blue \<open>(0, 0, 255)\<close> to red. The segments that go
  red to blue, blue to green and green to red are those of the inverted position
  \<open>255 - p\<close>, which the function computes first. No channel wraps around, and the wheel
  is closed: position 255 has the colour of position 0.
\<close>

theorem colorWheel_segments:
  "colorWheel p =
     (let n = unat p in
      if n < 85 then Color (of_nat (255 - 3 * n)) (of_nat (3 * n)) 0
      else if n < 170 then Color 0 (of_nat (255 - 3 * (n - 85))) (of_nat (3 * (n - 85)))
      else Color (of_nat (3 * (n - 170))) 0 (of_nat (255 - 3 * (n - 170))))
   \<and> colorWheel 255 = colorWheel 0"
proof -
  have le1: "p \<le> 85 \<longleftrightarrow> unat p \<le> 85" by (simp add: word_le_nat_alt)
  have le2: "p \<le> 170 \<longleftrightarrow> unat p \<le> 170" by (simp add: word_le_nat_alt)
  have lt: "unat p < 256" using unsigned_less [of p, where ?'a = nat] by simp
  have sub85: "\<not> unat p \<le> 85 \<Longrightarrow> (of_nat (unat p - 85) :: u8) = p - 85"
    by (simp add: of_nat_diff)
  have sub170: "\<not> unat p \<le> 170 \<Longrightarrow> (of_nat (unat p - 170) :: u8) = p - 170"
    by (simp add: of_nat_diff)
  have w: "colorWheel p =
     (let n = unat p in
      if n \<le> 85 then Color (of_nat (255 - 3 * n)) (of_nat (3 * n)) 0
      else if n \<le> 170 then Color 0 (of_nat (255 - 3 * (n - 85))) (of_nat (3 * (n - 85)))
      else Color (of_nat (3 * (n - 170))) 0 (of_nat (255 - 3 * (n - 170))))"
    unfolding colorWheel_word Let_def le1 le2
    using lt by (auto simp: of_nat_diff sub85 sub170)
  consider "unat p < 85" | "unat p = 85" | "85 < unat p" "unat p < 170" | "unat p = 170"
    | "170 < unat p"
    by linarith
  then have "colorWheel p =
     (let n = unat p in
      if n < 85 then Color (of_nat (255 - 3 * n)) (of_nat (3 * n)) 0
      else if n < 170 then Color 0 (of_nat (255 - 3 * (n - 85))) (of_nat (3 * (n - 85)))
      else Color (of_nat (3 * (n - 170))) 0 (of_nat (255 - 3 * (n - 170))))"
    by cases (simp_all add: w Let_def)
  moreover have "colorWheel 255 = colorWheel 0"
    by (simp add: colorWheel_def)
  ultimately show ?thesis by simp
qed

text \<open>
  Position 42 lies in the segment 0..84, and its colour has a green channel and no blue:
  it is not on the way from red to blue.
\<close>

theorem colorWheel_red_to_blue_counterexample:
  "colorWheel 42 = Color 129 126 0 \<and> colorWheel 42 \<noteq> Color (255 - 3 * 42) 0 (3 * 42)"
  by (simp add: colorWheel_def Color_def)

section \<open>Unique random selection\<close>

lemma contains_loop_upt:
  "\<forall>i \<in> set js. i < length arr \<Longrightarrow>
   contains_loop arr js val = Inr (val \<in> set (map (nth arr) js))"
  by (induction js) (auto simp: rd_def)

lemma contains_take:
  "unat len \<le> length arr \<Longrightarrow> contains arr len val = Inr (val \<in> set (take (unat len) arr))"
  by (simp add: contains_def contains_loop_upt map_nth_upt_take)

lemma draw_in_range: "(of_nat (random rnd i 0 (unat PEOPLE_NB)) :: u8) < PEOPLE_NB"
  by (simp add: random_def unat_PEOPLE_NB PEOPLE_NB_def UsedLEDs_def word_less_nat_alt unat_of_nat)

lemma unat_succ: "(count :: u8) < k \<Longrightarrow> unat (count + 1) = Suc (unat count)"
  by unat_arith

lemma succ_le: "(count :: u8) < k \<Longrightarrow> count + 1 \<le> k"
  by unat_arith

lemma picked_step:
  assumes "picked out count" "count < k" "unat count < length out"
    "r < PEOPLE_NB" "r \<notin> set (take (unat count) out)"
  shows "picked (out[unat count := r]) (count + 1)"
proof -
  have "take (Suc (unat count)) (out[unat count := r]) = take (unat count) out @ [r]"
    using assms(3) by (simp add: take_Suc_conv_app_nth)
  then show ?thesis
    using assms by (auto simp: picked_def unat_succ)
qed

lemma pickLoop_correct:
  assumes run: "pickLoop rnd i k out count = Some y"
    and inv: "picked out count" and le: "count \<le> k"
  shows "case y of
      Inl e \<Rightarrow> length out < unat k
    | Inr (out', i') \<Rightarrow> picked out' k \<and> length out' = length out \<and> i \<le> i'
        \<and> drop (unat k) out' = drop (unat k) out"
proof -
  let ?P = "\<lambda>(rnd :: nat \<Rightarrow> nat) (i :: nat) (k :: u8) (out :: u8 list) (count :: u8) y.
     picked out count \<longrightarrow> count \<le> k \<longrightarrow>
       (case y of
          Inl (e :: fault) \<Rightarrow> length out < unat k
        | Inr (out', i') \<Rightarrow> picked out' k \<and> length out' = length out \<and> i \<le> i'
            \<and> drop (unat k) out' = drop (unat k) out)"
  have "?P rnd i k out count y"
  proof (rule pickLoop.raw_induct [where P = ?P, OF _ run], intro impI)
    fix f :: "(nat \<Rightarrow> nat) \<Rightarrow> nat \<Rightarrow> u8 \<Rightarrow> u8 list \<Rightarrow> u8 \<Rightarrow> (fault + u8 list \<times> nat) option"
      and rnd i k out count y
    let ?r = "of_nat (random rnd i 0 (unat PEOPLE_NB)) :: u8"
    assume IH: "\<And>rnd i k out count y. f rnd i k out count = Some y \<Longrightarrow> ?P rnd i k out count y"
      and body: "(if count < k
         then let r = word_of_nat (random rnd i 0 (unat PEOPLE_NB))
           in case contains out count r of Inl e \<Rightarrow> Some (Inl e)
              | Inr dup \<Rightarrow>
                  if dup then f rnd (Suc i) k out count
                  else if unat count < length out
                       then f rnd (Suc i) k (out[unat count := r]) (count + 1)
                       else Some (Inl OutOfBounds)
         else Some (Inr (out, i))) = Some y"
      and inv: "picked out count" and le: "count \<le> k"
    have c: "contains out count ?r = Inr (?r \<in> set (take (unat count) out))"
      using inv by (simp add: contains_take picked_def)
    show "case y of
          Inl e \<Rightarrow> length out < unat k
        | Inr (out', i') \<Rightarrow> picked out' k \<and> length out' = length out \<and> i \<le> i'
            \<and> drop (unat k) out' = drop (unat k) out"
    proof (cases "count < k")
      case False
      then have "count = k" using le by simp
      with False body inv show ?thesis by auto
    next
      case lt: True
      show ?thesis
      proof (cases "?r \<in> set (take (unat count) out)")
        case True
        with lt c body have "f rnd (Suc i) k out count = Some y" by simp
        from IH [OF this] inv le show ?thesis
          by (auto split: sum.splits)
      next
        case fresh: False
        show ?thesis
        proof (cases "unat count < length out")
          case True
          with lt c fresh body
          have "f rnd (Suc i) k (out[unat count := ?r]) (count + 1) = Some y" by simp
          from IH [OF this] picked_step [OF inv lt True draw_in_range fresh] succ_le [OF lt]
          show ?thesis
            using lt by (auto split: sum.splits simp: word_less_nat_alt)
        next
          case False
          with lt c fresh body have "y = Inl OutOfBounds" by simp
          with False lt show ?thesis by (simp add: word_less_nat_alt)
        qed
      qed
    qed
  qed
  with inv le show ?thesis by simp
qed

lemma picked_0: "picked out 0"
  by (simp add: picked_def)

text \<open>
  Claim C2. Whatever the random stream, its cursor, \<open>k\<close> and the array: when
  \<open>pickUniqueRandom\<close> returns, the first \<open>k\<close> cells of the array are there, are
  pairwise distinct, and each holds an index below \<open>PEOPLE_NB\<close>.
\<close>

theorem pickUniqueRandom_distinct:
  assumes "pickUniqueRandom rnd i k out = Some (Inr (out', i'))"
  shows "length (take (unat k) out') = unat k \<and> distinct (take (unat k) out')
         \<and> (\<forall>x \<in> set (take (unat k) out'). x < PEOPLE_NB)"
  using pickLoop_correct [OF assms [unfolded pickUniqueRandom_def] picked_0]
  by (simp add: picked_def)

text \<open>Three people from the stream 0, 1, 2, ...: the call returns persons 0, 1 and 2.\<close>

theorem pickUniqueRandom_distinct_witness:
  "pickUniqueRandom (\<lambda>n. n) 0 3 (replicate 32 0) = Some (Inr ([0, 1, 2] @ replicate 29 0, 3))
   \<and> length (take (unat (3 :: u8)) ([0, 1, 2] @ replicate 29 (0 :: u8))) = unat (3 :: u8)
   \<and> distinct (take (unat (3 :: u8)) ([0, 1, 2] @ replicate 29 (0 :: u8)))
   \<and> list_all (\<lambda>x. x < PEOPLE_NB) (take (unat (3 :: u8)) ([0, 1, 2] @ replicate 29 (0 :: u8)))"
proof -
  have h: "pickUniqueRandom (\<lambda>n. n) 0 3 (replicate 32 0)
             = Some (Inr ([0, 1, 2] @ replicate 29 0, 3))"
    by code_simp
  from pickUniqueRandom_distinct [OF h] h show ?thesis
    by (simp add: list_all_iff)
qed

subsection \<open>Termination\<close>

lemma pickLoop_skip:
  assumes "i \<le> j" "count < k" "unat count \<le> length out"
    and dup: "\<And>m. i \<le> m \<Longrightarrow> m < j \<Longrightarrow>
           (of_nat (random rnd m 0 (unat PEOPLE_NB)) :: u8) \<in> set (take (unat count) out)"
  shows "pickLoop rnd i k out count = pickLoop rnd j k out count"
  using assms(1) dup
proof (induction rule: dec_induct)
  case base
  show ?case by simp
next
  case (step n)
  have "pickLoop rnd n k out count = pickLoop rnd (Suc n) k out count"
    using step.hyps step.prems [of n] assms(2,3)
    by (subst pickLoop.simps) (simp add: contains_take)
  with step show ?case by simp
qed

lemma fresh_value:
  assumes "picked out count" "count < PEOPLE_NB"
  shows "\<exists>n < unat PEOPLE_NB. (of_nat n :: u8) \<notin> set (take (unat count) out)"
proof -
  let ?S = "set (take (unat count) out)"
  have "card (unat ` ?S) \<le> card ?S" by (simp add: card_image_le)
  also have "\<dots> \<le> length (take (unat count) out)" by (rule card_length)
  also have "\<dots> < unat PEOPLE_NB" using assms by (simp add: picked_def word_less_nat_alt)
  finally have "card (unat ` ?S) < card {0..<unat PEOPLE_NB}" by simp
  then have "\<not> {0..<unat PEOPLE_NB} \<subseteq> unat ` ?S"
    by (metis card_mono finite_imageI finite_set not_le)
  then obtain n where "n \<in> {0..<unat PEOPLE_NB}" and n2: "n \<notin> unat ` ?S" by blast
  then have n: "n < unat PEOPLE_NB" "n \<notin> unat ` ?S" by simp_all
  have "unat (of_nat n :: u8) = n"
    using n(1) by (simp add: unat_of_nat unat_PEOPLE_NB UsedLEDs_def)
  with n(2) have "(of_nat n :: u8) \<notin> ?S" by (metis imageI)
  with n(1) show ?thesis by blast
qed

lemma first_fresh_draw:
  assumes "recurrent rnd" "picked out count" "count < PEOPLE_NB"
  shows "\<exists>j \<ge> i. (of_nat (random rnd j 0 (unat PEOPLE_NB)) :: u8) \<notin> set (take (unat count) out)
           \<and> (\<forall>m. i \<le> m \<and> m < j \<longrightarrow>
                 (of_nat (random rnd m 0 (unat PEOPLE_NB)) :: u8) \<in> set (take (unat count) out))"
proof -
  let ?fresh = "\<lambda>j. i \<le> j \<and>
      (of_nat (random rnd j 0 (unat PEOPLE_NB)) :: u8) \<notin> set (take (unat count) out)"
  from fresh_value [OF assms(2,3)] obtain n where
    n: "n < unat PEOPLE_NB" "(of_nat n :: u8) \<notin> set (take (unat count) out)" by blast
  from assms(1) n(1) obtain j where "j \<ge> i" "random rnd j 0 (unat PEOPLE_NB) = n"
    unfolding recurrent_def by blast
  with n(2) have "\<exists>j. ?fresh j" by auto
  then obtain j where "?fresh j" "\<forall>m < j. \<not> ?fresh m"
    using exists_least_iff [of ?fresh] by blast
  then show ?thesis by blast
qed

lemma pickLoop_terminates:
  assumes "recurrent rnd" "k \<le> PEOPLE_NB"
  shows "picked out count \<Longrightarrow> count \<le> k \<Longrightarrow> unat k \<le> length out \<Longrightarrow>
         \<exists>out' i'. pickLoop rnd i k out count = Some (Inr (out', i'))"
proof (induction n \<equiv> "unat k - unat count" arbitrary: i out count)
  case 0
  then have "count = k" by (simp add: word_le_nat_alt word_unat_eq_iff)
  then show ?case by (subst pickLoop.simps) simp
next
  case (Suc n)
  then have lt: "count < k" by (simp add: word_less_nat_alt)
  with assms(2) have ltP: "count < PEOPLE_NB" by simp
  have len: "unat count < length out"
    using lt Suc.prems(3) unfolding word_less_nat_alt by (rule less_le_trans)
  from first_fresh_draw [OF assms(1) Suc.prems(1) ltP, of i] obtain j where
    j: "i \<le> j"
    "(of_nat (random rnd j 0 (unat PEOPLE_NB)) :: u8) \<notin> set (take (unat count) out)"
    "\<And>m. i \<le> m \<Longrightarrow> m < j \<Longrightarrow>
       (of_nat (random rnd m 0 (unat PEOPLE_NB)) :: u8) \<in> set (take (unat count) out)"
    by blast
  let ?r = "of_nat (random rnd j 0 (unat PEOPLE_NB)) :: u8"
  have "pickLoop rnd i k out count = pickLoop rnd j k out count"
    using len by (intro pickLoop_skip j lt) simp_all
  also have "\<dots> = pickLoop rnd (Suc j) k (out[unat count := ?r]) (count + 1)"
    using lt len j(2) by (subst pickLoop.simps) (simp add: contains_take)
  finally have eq: "pickLoop rnd i k out count
      = pickLoop rnd (Suc j) k (out[unat count := ?r]) (count + 1)" .
  have "n = unat k - unat (count + 1)"
    using Suc.hyps(2) by (simp add: unat_succ [OF lt])
  from Suc.hyps(1) [OF this picked_step [OF Suc.prems(1) lt len draw_in_range j(2)]
      succ_le [OF lt], of "Suc j"] Suc.prems(3)
  show ?case unfolding eq by simp
qed

text \<open>
  Claim C7, as amended. The loop has no retry bound, so whether it ends depends on the
  draws. On a random stream in which every index is drawn again after every position, a call
  with \<open>k \<le> PEOPLE_NB\<close> and an array of at least \<open>k\<close> cells returns, without a fault.
\<close>

theorem pickUniqueRandom_terminates:
  assumes "recurrent rnd" "k \<le> PEOPLE_NB" "unat k \<le> length out"
  shows "\<exists>out' i'. pickUniqueRandom rnd i k out = Some (Inr (out', i'))"
  unfolding pickUniqueRandom_def
  using pickLoop_terminates [OF assms(1,2) picked_0 _ assms(3)] by simp

lemma recurrent_id: "recurrent (\<lambda>n. n)"
  unfolding recurrent_def
proof (intro allI impI)
  fix i v :: nat
  assume "v < unat PEOPLE_NB"
  then have "random (\<lambda>n. n) (unat PEOPLE_NB * i + v) 0 (unat PEOPLE_NB) = v"
    by (simp add: random_def)
  moreover have "i \<le> unat PEOPLE_NB * i + v"
    by (simp add: unat_PEOPLE_NB UsedLEDs_def)
  ultimately show "\<exists>j\<ge>i. random (\<lambda>n. n) j 0 (unat PEOPLE_NB) = v" by blast
qed

text \<open>The stream 0, 1, 2, ... is such a stream; three people are picked from it.\<close>

theorem pickUniqueRandom_terminates_witness:
  "\<exists>out' i'. pickUniqueRandom (\<lambda>n. n) 0 3 (replicate 32 0) = Some (Inr (out', i'))"
proof -
  have "(3 :: u8) \<le> PEOPLE_NB" by (simp add: PEOPLE_NB_def UsedLEDs_def)
  moreover have "unat (3 :: u8) \<le> length (replicate 32 (0 :: u8))" by simp
  ultimately show ?thesis
    using pickUniqueRandom_terminates [OF recurrent_id] by blast
qed

lemma pickLoop_constant_stream:
  assumes run: "pickLoop rnd i k out count = Some y"
  shows "\<not> (rnd = (\<lambda>n. 0) \<and> k = 2 \<and> length out = 32
            \<and> (count = 0 \<or> count = 1 \<and> out ! 0 = 0))"
proof -
  let ?P = "\<lambda>(rnd :: nat \<Rightarrow> nat) (i :: nat) (k :: u8) (out :: u8 list) (count :: u8)
      (y :: fault + u8 list \<times> nat).
     \<not> (rnd = (\<lambda>n. 0) \<and> k = 2 \<and> length out = 32
            \<and> (count = 0 \<or> count = 1 \<and> out ! 0 = 0))"
  show ?thesis
  proof (rule pickLoop.raw_induct [where P = ?P, OF _ run], rule notI, elim conjE)
    fix f :: "(nat \<Rightarrow> nat) \<Rightarrow> nat \<Rightarrow> u8 \<Rightarrow> u8 list \<Rightarrow> u8 \<Rightarrow> (fault + u8 list \<times> nat) option"
      and rnd i k out count y
    assume IH: "\<And>rnd i k out count y. f rnd i k out count = Some y \<Longrightarrow> ?P rnd i k out count y"
      and body: "(if count < k
         then let r = word_of_nat (random rnd i 0 (unat PEOPLE_NB))
           in case contains out count r of Inl e \<Rightarrow> Some (Inl e)
              | Inr dup \<Rightarrow>
                  if dup then f rnd (Suc i) k out count
                  else if unat count < length out
                       then f rnd (Suc i) k (out[unat count := r]) (count + 1)
                       else Some (Inl OutOfBounds)
         else Some (Inr (out, i))) = Some y"
      and c: "rnd = (\<lambda>n. 0)" "k = 2" "length out = 32" "count = 0 \<or> count = 1 \<and> out ! 0 = 0"
    have r: "(of_nat (random rnd i 0 (unat PEOPLE_NB)) :: u8) = 0"
      using c(1) by (simp add: random_def)
    from c(4) show False
    proof
      assume z: "count = 0"
      with body c r have "f rnd (Suc i) k (out[0 := 0]) 1 = Some y"
        by (simp add: contains_take)
      from IH [OF this] c show False by simp
    next
      assume o: "count = 1 \<and> out ! 0 = 0"
      then have "take (unat count) out = [0]"
        using c(3) by (cases out) simp_all
      with body c r o have "f rnd (Suc i) k out count = Some y"
        by (simp add: contains_take)
      from IH [OF this] c o show False by simp
    qed
  qed
qed

text \<open>
  On the stream whose draws are all 0 the call with \<open>k = 2\<close> never returns: person 0 is
  picked first and every later draw is rejected as a duplicate.
\<close>

theorem pickUniqueRandom_constant_stream_counterexample:
  "(2 :: u8) \<le> PEOPLE_NB \<and> pickUniqueRandom (\<lambda>n. 0) 0 2 (replicate 32 0) = None"
proof -
  have "pickLoop (\<lambda>n. 0) 0 2 (replicate 32 0) 0 = None"
  proof (cases "pickLoop (\<lambda>n. 0) 0 2 (replicate 32 0) 0")
    case (Some y)
    from pickLoop_constant_stream [OF this] show ?thesis by simp
  qed simp
  then show ?thesis by (simp add: pickUniqueRandom_def PEOPLE_NB_def UsedLEDs_def)
qed

section \<open>One call of \<open>loop\<close>\<close>

lemma pickUniqueRandom_result:
  assumes "pickUniqueRandom rnd i k out = Some y" "unat k \<le> length out"
  shows "\<exists>out' i'. y = Inr (out', i') \<and> picked out' k \<and> length out' = length out"
  using pickLoop_correct [OF assms(1) [unfolded pickUniqueRandom_def] picked_0] assms(2)
  by (auto split: sum.splits)

lemma renderAnimating_selectedIdx_len:
  "length (selectedIdx (fst (renderAnimating st rnd i))) = length (selectedIdx st)"
  by (simp add: renderAnimating_frame)

lemma clampCount_le: "clampCount rc \<le> PEOPLE_NB \<and> clampCount rc \<le> MAX_SEL"
  by (auto simp: clampCount_def Let_def PEOPLE_NB_def UsedLEDs_def MAX_SEL_def
      word_le_nat_alt word_less_nat_alt)

lemma renderShowSelection_picked:
  assumes "picked (selectedIdx st) (selectedCount st)"
  shows "renderShowSelection st =
     Inr (st\<lparr>pixels := fold (\<lambda>x px. setPixelColor px (UsedLEDs ! unat x) white)
                          (take (unat (selectedCount st)) (selectedIdx st)) (clear (pixels st)),
              shown := fold (\<lambda>x px. setPixelColor px (UsedLEDs ! unat x) white)
                          (take (unat (selectedCount st)) (selectedIdx st)) (clear (pixels st))\<rparr>)"
  using assms by (intro renderShowSelection_fold) (simp_all add: picked_def)

lemma caseAnimating_ok:
  assumes len: "length (selectedIdx st) = unat MAX_SEL" and an: "state st = ANIMATING"
    and run: "caseAnimating st btn rnd i = Some r"
  shows "\<exists>st' i'. r = Inr (st', i') \<and> length (selectedIdx st') = unat MAX_SEL
           \<and> state st' \<in> {IDLE, ANIMATING, SHOW}
           \<and> (state st' = SHOW \<longrightarrow> selectedCount st' \<le> PEOPLE_NB \<and> selectedCount st' \<le> MAX_SEL
                 \<and> picked (selectedIdx st') (selectedCount st'))"
proof -
  obtain sa ia where ra: "renderAnimating st rnd i = (sa, ia)" by (cases "renderAnimating st rnd i")
  have sa: "selectedIdx sa = selectedIdx st" "state sa = state st"
    using renderAnimating_frame [of st rnd i] ra by simp_all
  show ?thesis
  proof (cases "btn = 2")
    case True
    with run ra sa len show ?thesis
      by (auto simp: caseAnimating_def ret_def enterState_IDLE)
  next
    case nb: False
    show ?thesis
    proof (cases "nowMs sa - stateEnterMs sa \<ge> ANIM_MS")
      case False
      with nb run ra sa len an show ?thesis
        by (auto simp: caseAnimating_def)
    next
      case True
      let ?n = "clampCount (requestedCount sa)"
      let ?s1 = "sa\<lparr>selectedCount := ?n\<rparr>"
      from nb True run ra
      have run': "(case pickUniqueRandom rnd ia ?n (selectedIdx sa) of
              None \<Rightarrow> None
            | Some (Inl e) \<Rightarrow> Some (Inl e)
            | Some (Inr (out, i')) \<Rightarrow> ret i' (enterState (?s1\<lparr>selectedIdx := out\<rparr>) SHOW)) = Some r"
        by (simp add: caseAnimating_def Let_def)
      then obtain y where y: "pickUniqueRandom rnd ia ?n (selectedIdx sa) = Some y"
        by (cases "pickUniqueRandom rnd ia ?n (selectedIdx sa)") simp_all
      have "unat ?n \<le> length (selectedIdx sa)"
        using clampCount_le [of "requestedCount sa"] sa len by (simp add: word_le_nat_alt)
      from pickUniqueRandom_result [OF y this] obtain out' i' where
        o: "y = Inr (out', i')" "picked out' ?n" "length out' = length (selectedIdx sa)" by blast
      have "enterState (?s1\<lparr>selectedIdx := out'\<rparr>) SHOW = renderShowSelection (?s1\<lparr>selectedIdx := out', state := SHOW, stateEnterMs := nowMs sa\<rparr>)"
        by (simp add: enterState_def)
      also have "\<dots> = Inr (?s1\<lparr>selectedIdx := out', state := SHOW, stateEnterMs := nowMs sa,
           pixels := fold (\<lambda>x px. setPixelColor px (UsedLEDs ! unat x) white)
                          (take (unat ?n) out') (clear (pixels sa)),
           shown := fold (\<lambda>x px. setPixelColor px (UsedLEDs ! unat x) white)
                          (take (unat ?n) out') (clear (pixels sa))\<rparr>)"
        using o(2) by (subst renderShowSelection_picked) simp_all
      finally show ?thesis
        using run' y o sa len clampCount_le [of "requestedCount sa"]
        by (auto simp: ret_def)
    qed
  qed
qed

lemma caseIdle_ok:
  "\<exists>st'. caseIdle st btn = Inr st' \<and> selectedIdx st' = selectedIdx st
     \<and> (state st' = state st \<or> state st' = COUNTING \<and> requestedCount st' = 1)"
  by (simp add: caseIdle_def Let_def enterState_def renderIdle_frame)

lemma caseCounting_ok:
  "\<exists>st'. caseCounting st btn = Inr st' \<and> selectedIdx st' = selectedIdx st
     \<and> (state st' = IDLE \<or> state st' = ANIMATING
         \<or> state st' = state st
           \<and> (requestedCount st' = requestedCount st
               \<or> requestedCount st < MAX_REQUEST
                 \<and> requestedCount st' = requestedCount st + 1))"
  by (simp add: caseCounting_def countPress_def Let_def enterState_def renderIdle_frame)

lemma caseShow_ok:
  "\<exists>st'. caseShow st btn = Inr st' \<and> selectedIdx st' = selectedIdx st
     \<and> (state st' = IDLE \<or> state st' = state st)"
  by (simp add: caseShow_def enterState_def)

lemma loop_step:
  assumes len: "length (selectedIdx st) = unat MAX_SEL"
    and run: "loop st t level level2 rnd i = Some r"
  shows "\<exists>st' i'. r = Inr (st', i') \<and> length (selectedIdx st') = unat MAX_SEL
     \<and> (state st = ANIMATING \<and> state st' = SHOW \<longrightarrow>
           selectedCount st' \<le> PEOPLE_NB \<and> selectedCount st' \<le> MAX_SEL
           \<and> picked (selectedIdx st') (selectedCount st'))
     \<and> (state st' = COUNTING \<longrightarrow>
           state st = IDLE \<and> requestedCount st' = 1
           \<or> state st = COUNTING
             \<and> (requestedCount st' = requestedCount st
                 \<or> requestedCount st < MAX_REQUEST
                   \<and> requestedCount st' = requestedCount st + 1))"
proof -
  let ?p = "pollButton (st\<lparr>nowMs := t\<rparr>) level level2"
  let ?s = "snd ?p" and ?b = "fst ?p"
  have s: "state ?s = state st" "selectedIdx ?s = selectedIdx st"
    "requestedCount ?s = requestedCount st"
    by (simp_all add: pollButton_frame)
  have d: "dispatch ?s ?b rnd i = Some r"
    using run by (simp add: loop_def case_prod_beta)
  show ?thesis
  proof (cases "state st")
    case IDLE
    from caseIdle_ok [of ?s ?b] d IDLE s len show ?thesis
      by (auto simp: dispatch_def ret_def)
  next
    case COUNTING
    from caseCounting_ok [of ?s ?b] d COUNTING s len show ?thesis
      by (auto simp: dispatch_def ret_def)
  next
    case ANIMATING
    with d s have "caseAnimating ?s ?b rnd i = Some r" by (simp add: dispatch_def)
    from caseAnimating_ok [OF _ _ this] ANIMATING s len show ?thesis
      by auto
  next
    case SHOW
    from caseShow_ok [of ?s ?b] d SHOW s len show ?thesis
      by (auto simp: dispatch_def ret_def)
  qed
qed

lemma setup_sketch_eq:
  "setup_sketch = Some (Inr (boot\<lparr>pixels := clear (pixels boot), shown := clear (pixels boot),
      state := IDLE, stateEnterMs := 0\<rparr>))"
  by code_simp

lemma reachable_selectedIdx:
  "reachable st \<Longrightarrow> length (selectedIdx st) = unat MAX_SEL"
proof (induction rule: reachable.induct)
  case (reachable_setup st)
  then show ?case by (simp add: setup_sketch_eq boot_def) auto
next
  case (reachable_loop st t level level2 rnd i st' i')
  from loop_step [OF reachable_loop.IH reachable_loop.hyps(2)] show ?case by simp
qed

lemma reachable_counting:
  "reachable st \<Longrightarrow> state st = COUNTING \<Longrightarrow>
   1 \<le> requestedCount st \<and> requestedCount st \<le> PEOPLE_NB"
proof (induction rule: reachable.induct)
  case (reachable_setup st)
  then show ?case by (simp add: setup_sketch_eq boot_def) auto
next
  case (reachable_loop st t level level2 rnd i st' i')
  from loop_step [OF reachable_selectedIdx [OF reachable_loop.hyps(1)] reachable_loop.hyps(2)]
    reachable_loop.prems
  consider "requestedCount st' = 1"
    | "state st = COUNTING" "requestedCount st' = requestedCount st"
    | "state st = COUNTING" "requestedCount st < MAX_REQUEST"
      "requestedCount st' = requestedCount st + 1"
    by auto
  then show ?case
  proof cases
    case 1
    then show ?thesis by (simp add: PEOPLE_NB_def UsedLEDs_def)
  next
    case 2
    with reachable_loop.IH show ?thesis by simp
  next
    case 3
    with reachable_loop.IH [OF 3(1)] show ?thesis
      unfolding MAX_REQUEST_def by (simp add: succ_le) (unat_arith; simp)
  qed
qed

lemma reachable_run:
  "reachable st \<Longrightarrow> run st rnd i ts = Some (Inr (st', i')) \<Longrightarrow> reachable st'"
proof (induction ts arbitrary: st i)
  case Nil
  then show ?case by simp
next
  case (Cons a ts)
  obtain t l l2 where a: "a = (t, l, l2)" by (cases a)
  from Cons.prems(2) obtain s1 i1 where
    1: "loop st t l l2 rnd i = Some (Inr (s1, i1))" and 2: "run s1 rnd i1 ts = Some (Inr (st', i'))"
    unfolding a by (auto split: option.splits sum.splits)
  from Cons.IH [OF reachable_loop [OF Cons.prems(1) 1] 2] show ?case .
qed

lemma case_okD:
  "(case r of None \<Rightarrow> False | Some (Inl e) \<Rightarrow> False | Some (Inr x) \<Rightarrow> P x)
   \<Longrightarrow> \<exists>x. r = Some (Inr x) \<and> P x"
  by (auto split: option.splits sum.splits)

lemma case_ok_pairD:
  "(case r of None \<Rightarrow> False | Some (Inl e) \<Rightarrow> False | Some (Inr (s, i)) \<Rightarrow> P s i)
   \<Longrightarrow> \<exists>s i. r = Some (Inr (s, i)) \<and> P s i"
  by (auto split: option.splits sum.splits)


section \<open>The count while counting\<close>

text \<open>
  Claim C9. In every state that the sketch can reach, whatever the clock, the button and the
  random source do: while the state is \<open>COUNTING\<close> the requested count lies between 1
  and \<open>PEOPLE_NB\<close>. So in a call of \<open>loop\<close> from such a state the count is still not 0
  after the short-press statement, which is where the window-expiry code tests
  \<open>requestedCount == 0\<close>: that branch is never taken.
\<close>

theorem counting_invariant:
  assumes "reachable st" "state st = COUNTING"
  shows "1 \<le> requestedCount st \<and> requestedCount st \<le> PEOPLE_NB
         \<and> requestedCount
              (countPress (renderIdle (snd (pollButton (st\<lparr>nowMs := t\<rparr>) level level2))) btn)
            \<noteq> 0"
proof -
  let ?s = "renderIdle (snd (pollButton (st\<lparr>nowMs := t\<rparr>) level level2))"
  from reachable_counting [OF assms] have
    rc: "1 \<le> requestedCount st" "requestedCount st \<le> PEOPLE_NB" by simp_all
  have s: "requestedCount ?s = requestedCount st"
    by (simp add: renderIdle_frame pollButton_frame)
  have nz: "requestedCount st \<noteq> 0" using rc(1) by auto
  have "requestedCount st < MAX_REQUEST \<Longrightarrow> requestedCount st + 1 \<noteq> 0"
    unfolding MAX_REQUEST_def by (unat_arith; simp)
  with nz s have "requestedCount (countPress ?s btn) \<noteq> 0"
    by (simp add: countPress_def Let_def)
  with rc show ?thesis by simp
qed

text \<open>
  After \<open>setup\<close>, a press at 100 ms and its release at 200 ms: the sketch is counting,
  with a count of 1.
\<close>

theorem counting_invariant_witness:
  "case setup_sketch of
     Some (Inr st0) \<Rightarrow>
       (case run st0 (\<lambda>n. n) 0 [(100, LOW, LOW), (200, HIGH, HIGH), (300, HIGH, HIGH)] of
          Some (Inr (s, i)) \<Rightarrow>
            state s = COUNTING \<and> 1 \<le> requestedCount s \<and> requestedCount s \<le> PEOPLE_NB
        | _ \<Rightarrow> False)
   | _ \<Rightarrow> False"
proof -
  have "case setup_sketch of
     Some (Inr st0) \<Rightarrow>
       (case run st0 (\<lambda>n. n) 0 [(100, LOW, LOW), (200, HIGH, HIGH), (300, HIGH, HIGH)] of
          Some (Inr (s, i)) \<Rightarrow> state s = COUNTING
        | _ \<Rightarrow> False)
   | _ \<Rightarrow> False"
    by code_simp
  from case_okD [OF this] obtain st0 where
    0: "setup_sketch = Some (Inr st0)" and
    r: "case run st0 (\<lambda>n. n) 0 [(100, LOW, LOW), (200, HIGH, HIGH), (300, HIGH, HIGH)] of
          Some (Inr (s, i)) \<Rightarrow> state s = COUNTING
        | _ \<Rightarrow> False"
    by blast
  from case_ok_pairD [OF r] obtain s i where
    1: "run st0 (\<lambda>n. n) 0 [(100, LOW, LOW), (200, HIGH, HIGH), (300, HIGH, HIGH)]
          = Some (Inr (s, i))" and
    2: "state s = COUNTING"
    by blast
  have "reachable s"
    by (rule reachable_run [OF reachable_setup [OF 0] 1])
  from counting_invariant [OF this 2] 2 show ?thesis
    by (simp only: 0 1 option.case sum.case prod.case)
qed


section \<open>Array bounds at the transition to \<open>SHOW\<close>\<close>

text \<open>
  Claim C10. Take a state in \<open>ANIMATING\<close> whose array \<open>selectedIdx\<close> has its
  \<open>MAX_SEL\<close> cells. A call of \<open>loop\<close> that returns does so without a fault: no read or
  write of \<open>pickUniqueRandom\<close> and \<open>renderShowSelection\<close> left its array. When the call
  ends in \<open>SHOW\<close>, \<open>selectedCount\<close> is at most \<open>PEOPLE_NB\<close> and at most \<open>MAX_SEL\<close>,
  and each of the first \<open>selectedCount\<close> cells holds an index below \<open>PEOPLE_NB\<close>.
\<close>

theorem animating_to_show_in_bounds:
  assumes "length (selectedIdx st) = unat MAX_SEL" and "state st = ANIMATING"
    and "loop st t level level2 rnd i = Some r"
  shows "\<exists>st' i'. r = Inr (st', i')
           \<and> (state st' = SHOW \<longrightarrow>
                 selectedCount st' \<le> PEOPLE_NB \<and> selectedCount st' \<le> MAX_SEL
                 \<and> unat (selectedCount st') \<le> length (selectedIdx st')
                 \<and> (\<forall>x \<in> set (take (unat (selectedCount st')) (selectedIdx st')).
                       x < PEOPLE_NB))"
  using loop_step [OF assms(1,3)] assms(2) by (auto simp: picked_def)

text \<open>
  An animation that has lasted 2000 ms with three people requested: the call picks persons
  0, 1 and 2 from the stream 0, 1, 2, ... and shows them.
\<close>

theorem animating_to_show_in_bounds_witness:
  "\<exists>st' i'. loop (boot\<lparr>state := ANIMATING, requestedCount := 3\<rparr>) 2000 HIGH HIGH (\<lambda>n. n) 0
              = Some (Inr (st', i'))
     \<and> state st' = SHOW \<and> selectedCount st' = 3 \<and> take 3 (selectedIdx st') = [0, 1, 2]
     \<and> selectedCount st' \<le> PEOPLE_NB \<and> selectedCount st' \<le> MAX_SEL
     \<and> unat (selectedCount st') \<le> length (selectedIdx st')
     \<and> list_all (\<lambda>x. x < PEOPLE_NB) (take (unat (selectedCount st')) (selectedIdx st'))"
proof -
  let ?X = "boot\<lparr>state := ANIMATING, requestedCount := 3\<rparr>"
  have "case loop ?X 2000 HIGH HIGH (\<lambda>n. n) 0 of
          Some (Inr (st', i')) \<Rightarrow>
            state st' = SHOW \<and> selectedCount st' = 3 \<and> take 3 (selectedIdx st') = [0, 1, 2]
        | _ \<Rightarrow> False"
    by code_simp
  from case_ok_pairD [OF this] obtain st' i' where
    1: "loop ?X 2000 HIGH HIGH (\<lambda>n. n) 0 = Some (Inr (st', i'))" and
    2: "state st' = SHOW" "selectedCount st' = 3" "take 3 (selectedIdx st') = [0, 1, 2]"
    by blast
  have h1: "length (selectedIdx ?X) = unat MAX_SEL" by (simp add: boot_def)
  have h2: "state ?X = ANIMATING" by simp
  from animating_to_show_in_bounds [OF h1 h2 1] 2(1)
  have "selectedCount st' \<le> PEOPLE_NB \<and> selectedCount st' \<le> MAX_SEL
        \<and> unat (selectedCount st') \<le> length (selectedIdx st')
        \<and> list_all (\<lambda>x. x < PEOPLE_NB) (take (unat (selectedCount st')) (selectedIdx st'))"
    by (simp add: list_all_iff)
  with 1 2 show ?thesis by blast
qed

section \<open>Requests beyond the population\<close>

lemma clampCount_over: "PEOPLE_NB < k \<Longrightarrow> clampCount k = PEOPLE_NB"
  by (simp add: clampCount_def PEOPLE_NB_def UsedLEDs_def MAX_SEL_def)

lemma clampCount_PEOPLE_NB: "clampCount PEOPLE_NB = PEOPLE_NB"
  by (simp add: clampCount_def PEOPLE_NB_def UsedLEDs_def MAX_SEL_def)

lemma renderAnimating_requestedCount:
  "renderAnimating (st\<lparr>requestedCount := k\<rparr>) rnd i
     = (fst (renderAnimating st rnd i)\<lparr>requestedCount := k\<rparr>, snd (renderAnimating st rnd i))"
  by (simp add: renderAnimating_def Let_def)

lemma enterState_requestedCount:
  "enterState (st\<lparr>requestedCount := k\<rparr>) s
     = map_sum id (\<lambda>s. s\<lparr>requestedCount := k\<rparr>) (enterState st s)"
  by (cases s) (simp_all add: enterState_def renderShowSelection_def split: sum.splits)

lemma ret_map:
  "ret i (map_sum id f r) = map_option (map_sum id (apfst f)) (ret i r)"
  by (cases r) (simp_all add: ret_def)

lemma enterState_SHOW_requestedCount:
  "ret j (enterState (s\<lparr>requestedCount := k, selectedCount := c, selectedIdx := a\<rparr>) SHOW)
     = map_option (map_sum id (apfst (\<lambda>s. s\<lparr>requestedCount := k\<rparr>)))
         (ret j (enterState (s\<lparr>requestedCount := k', selectedCount := c, selectedIdx := a\<rparr>)
            SHOW))"
proof -
  let ?s = "s\<lparr>selectedCount := c, selectedIdx := a\<rparr>"
  have eq: "\<And>k. s\<lparr>requestedCount := k, selectedCount := c, selectedIdx := a\<rparr>
      = ?s\<lparr>requestedCount := k\<rparr>"
    by simp
  show ?thesis
    unfolding eq enterState_requestedCount
    by (cases "enterState ?s SHOW") (simp_all add: ret_def)
qed

lemma caseAnimating_unfold:
  assumes "renderAnimating st rnd i = (sa, ia)"
  shows "caseAnimating st btn rnd i =
    (if btn = 2 then Some (Inr (sa\<lparr>state := IDLE, stateEnterMs := nowMs sa\<rparr>, ia))
     else if ANIM_MS \<le> nowMs sa - stateEnterMs sa then
       (case pickUniqueRandom rnd ia (clampCount (requestedCount sa)) (selectedIdx sa) of
          None \<Rightarrow> None
        | Some (Inl e) \<Rightarrow> Some (Inl e)
        | Some (Inr (out, i')) \<Rightarrow>
            ret i' (enterState (sa\<lparr>selectedCount := clampCount (requestedCount sa),
                                  selectedIdx := out\<rparr>) SHOW))
     else Some (Inr (sa, ia)))"
  by (simp add: caseAnimating_def assms Let_def enterState_IDLE ret_def)

lemma caseAnimating_clamp:
  assumes "PEOPLE_NB < k"
  shows "caseAnimating (st\<lparr>requestedCount := k\<rparr>) btn rnd i
     = map_option (map_sum id (apfst (\<lambda>s. s\<lparr>requestedCount := k\<rparr>)))
         (caseAnimating (st\<lparr>requestedCount := PEOPLE_NB\<rparr>) btn rnd i)"
proof -
  obtain sa ia where ra: "renderAnimating st rnd i = (sa, ia)" by (cases "renderAnimating st rnd i")
  have rk: "\<And>k. renderAnimating (st\<lparr>requestedCount := k\<rparr>) rnd i
              = (sa\<lparr>requestedCount := k\<rparr>, ia)"
    by (simp add: renderAnimating_requestedCount ra)
  show ?thesis
    unfolding caseAnimating_unfold [OF rk]
    using assms
    by (simp add: clampCount_over clampCount_PEOPLE_NB
            enterState_SHOW_requestedCount [where k' = PEOPLE_NB and k = k]
          split: option.splits sum.splits)
qed

lemma enterState_SHOW_picked:
  assumes "picked (selectedIdx s) (selectedCount s)"
  shows "\<exists>s'. enterState s SHOW = Inr s' \<and> state s' = SHOW
           \<and> selectedCount s' = selectedCount s \<and> selectedIdx s' = selectedIdx s"
proof -
  let ?s = "s\<lparr>state := SHOW, stateEnterMs := nowMs s\<rparr>"
  have "enterState s SHOW = renderShowSelection ?s" by (simp add: enterState_def)
  moreover have "picked (selectedIdx ?s) (selectedCount ?s)" using assms by simp
  ultimately show ?thesis
    by (simp add: renderShowSelection_picked)
qed

text \<open>
  Claim C5, as amended. The selection is made in the \<open>ANIMATING\<close> case of \<open>loop\<close>, which
  clamps the requested count before it calls \<open>pickUniqueRandom\<close>. With a requested count
  \<open>k\<close> above \<open>PEOPLE_NB\<close> that case does exactly what it does with a requested count of
  \<open>PEOPLE_NB\<close>, on every random stream: the same result, the same state, the same use of
  the random stream; only the field \<open>requestedCount\<close> itself still holds \<open>k\<close>. When the
  animation is over and there is no long press, with an array of \<open>MAX_SEL\<close> cells and a
  random stream in which every index is drawn again after every position, the call returns
  without a fault in \<open>SHOW\<close> with \<open>PEOPLE_NB\<close> pairwise distinct people selected. On
  other streams the call can run for ever, as it can with a requested count of
  \<open>PEOPLE_NB\<close>.
\<close>

theorem selection_clamps_to_population:
  assumes "PEOPLE_NB < k" and "state st = ANIMATING"
  shows "dispatch (st\<lparr>requestedCount := k\<rparr>) btn rnd i
           = map_option (map_sum id (apfst (\<lambda>s. s\<lparr>requestedCount := k\<rparr>)))
               (dispatch (st\<lparr>requestedCount := PEOPLE_NB\<rparr>) btn rnd i)
         \<and> (btn \<noteq> 2 \<and> ANIM_MS \<le> nowMs st - stateEnterMs st
              \<and> length (selectedIdx st) = unat MAX_SEL \<and> recurrent rnd \<longrightarrow>
             (\<exists>st' i'. dispatch (st\<lparr>requestedCount := k\<rparr>) btn rnd i = Some (Inr (st', i'))
                \<and> state st' = SHOW \<and> selectedCount st' = PEOPLE_NB
                \<and> unat PEOPLE_NB \<le> length (selectedIdx st')
                \<and> distinct (take (unat PEOPLE_NB) (selectedIdx st'))
                \<and> (\<forall>x \<in> set (take (unat PEOPLE_NB) (selectedIdx st')). x < PEOPLE_NB)))"
proof (intro conjI impI)
  show "dispatch (st\<lparr>requestedCount := k\<rparr>) btn rnd i
           = map_option (map_sum id (apfst (\<lambda>s. s\<lparr>requestedCount := k\<rparr>)))
               (dispatch (st\<lparr>requestedCount := PEOPLE_NB\<rparr>) btn rnd i)"
    using assms(2) caseAnimating_clamp [OF assms(1), of st btn rnd i]
    by (simp add: dispatch_def)
next
  assume h: "btn \<noteq> 2 \<and> ANIM_MS \<le> nowMs st - stateEnterMs st
              \<and> length (selectedIdx st) = unat MAX_SEL \<and> recurrent rnd"
  let ?st = "st\<lparr>requestedCount := k\<rparr>"
  obtain sa ia where ra: "renderAnimating ?st rnd i = (sa, ia)"
    by (cases "renderAnimating ?st rnd i")
  have sa: "nowMs sa = nowMs st" "stateEnterMs sa = stateEnterMs st"
    "selectedIdx sa = selectedIdx st" "requestedCount sa = k"
    using renderAnimating_frame [of ?st rnd i] ra by simp_all
  have len: "unat PEOPLE_NB \<le> length (selectedIdx sa)"
    using h sa by (simp add: PEOPLE_NB_def UsedLEDs_def MAX_SEL_def)
  from pickUniqueRandom_terminates [OF _ order_refl len, of rnd ia] h obtain out' i' where
    p: "pickUniqueRandom rnd ia PEOPLE_NB (selectedIdx sa) = Some (Inr (out', i'))" by blast
  from pickUniqueRandom_result [OF p len] have pk: "picked out' PEOPLE_NB" by simp
  let ?s1 = "sa\<lparr>selectedCount := PEOPLE_NB, selectedIdx := out'\<rparr>"
  from enterState_SHOW_picked [of ?s1] pk obtain s' where
    s': "enterState ?s1 SHOW = Inr s'" "state s' = SHOW" "selectedCount s' = PEOPLE_NB"
    "selectedIdx s' = out'"
    by auto
  have "dispatch ?st btn rnd i = Some (Inr (s', i'))"
    using assms h sa p s'(1)
    by (simp add: dispatch_def caseAnimating_unfold [OF ra] clampCount_over ret_def)
  with s' pk show "\<exists>st' i'. dispatch ?st btn rnd i = Some (Inr (st', i'))
                \<and> state st' = SHOW \<and> selectedCount st' = PEOPLE_NB
                \<and> unat PEOPLE_NB \<le> length (selectedIdx st')
                \<and> distinct (take (unat PEOPLE_NB) (selectedIdx st'))
                \<and> (\<forall>x \<in> set (take (unat PEOPLE_NB) (selectedIdx st')). x < PEOPLE_NB)"
    by (simp add: picked_def)
qed

text \<open>A requested count of 200 after 2000 ms of animation, on the stream 0, 1, 2, ...\<close>

theorem selection_clamps_to_population_witness:
  "dispatch (boot\<lparr>state := ANIMATING, nowMs := 2000, requestedCount := 200\<rparr>) 0 (\<lambda>n. n) 0
     = map_option (map_sum id (apfst (\<lambda>s. s\<lparr>requestedCount := 200\<rparr>)))
         (dispatch (boot\<lparr>state := ANIMATING, nowMs := 2000, requestedCount := PEOPLE_NB\<rparr>) 0
            (\<lambda>n. n) 0)
   \<and> (\<exists>st' i'. dispatch (boot\<lparr>state := ANIMATING, nowMs := 2000, requestedCount := 200\<rparr>) 0
                   (\<lambda>n. n) 0 = Some (Inr (st', i'))
          \<and> state st' = SHOW \<and> selectedCount st' = PEOPLE_NB
          \<and> distinct (take (unat PEOPLE_NB) (selectedIdx st')))"
proof -
  let ?X = "boot\<lparr>state := ANIMATING, nowMs := 2000\<rparr>"
  have h1: "PEOPLE_NB < 200" by (simp add: PEOPLE_NB_def UsedLEDs_def)
  have h2: "state ?X = ANIMATING" by simp
  have h3: "(0 :: u8) \<noteq> 2 \<and> ANIM_MS \<le> nowMs ?X - stateEnterMs ?X
              \<and> length (selectedIdx ?X) = unat MAX_SEL \<and> recurrent (\<lambda>n. n)"
    by (simp add: boot_def ANIM_MS_def recurrent_id)
  from selection_clamps_to_population [OF h1 h2, of 0 "\<lambda>n. n" 0] h3 show ?thesis
    by blast
qed

lemma pickLoop_zero_stream:
  assumes run: "pickLoop rnd i k out count = Some y"
  shows "\<not> (rnd = (\<lambda>n. 0) \<and> 2 \<le> k \<and> 0 < length out
            \<and> (count = 0 \<or> count = 1 \<and> out ! 0 = 0))"
proof -
  let ?P = "\<lambda>(rnd :: nat \<Rightarrow> nat) (i :: nat) (k :: u8) (out :: u8 list) (count :: u8)
      (y :: fault + u8 list \<times> nat).
     \<not> (rnd = (\<lambda>n. 0) \<and> 2 \<le> k \<and> 0 < length out
            \<and> (count = 0 \<or> count = 1 \<and> out ! 0 = 0))"
  show ?thesis
  proof (rule pickLoop.raw_induct [where P = ?P, OF _ run], rule notI, elim conjE)
    fix f :: "(nat \<Rightarrow> nat) \<Rightarrow> nat \<Rightarrow> u8 \<Rightarrow> u8 list \<Rightarrow> u8 \<Rightarrow> (fault + u8 list \<times> nat) option"
      and rnd i k out count y
    assume IH: "\<And>rnd i k out count y. f rnd i k out count = Some y \<Longrightarrow> ?P rnd i k out count y"
      and body: "(if count < k
         then let r = word_of_nat (random rnd i 0 (unat PEOPLE_NB))
           in case contains out count r of Inl e \<Rightarrow> Some (Inl e)
              | Inr dup \<Rightarrow>
                  if dup then f rnd (Suc i) k out count
                  else if unat count < length out
                       then f rnd (Suc i) k (out[unat count := r]) (count + 1)
                       else Some (Inl OutOfBounds)
         else Some (Inr (out, i))) = Some y"
      and c: "rnd = (\<lambda>n. 0)" "2 \<le> k" "0 < length out" "count = 0 \<or> count = 1 \<and> out ! 0 = 0"
    have r: "(of_nat (random rnd i 0 (unat PEOPLE_NB)) :: u8) = 0"
      using c(1) by (simp add: random_def)
    have k0: "0 < k" "1 < k" using c(2) by (unat_arith; simp)+
    from c(4) show False
    proof
      assume z: "count = 0"
      with body c(3) r k0 have "f rnd (Suc i) k (out[0 := 0]) 1 = Some y"
        by (simp add: contains_take)
      from IH [OF this] c show False by simp
    next
      assume o: "count = 1 \<and> out ! 0 = 0"
      then have t: "take (unat count) out = [0]"
        using c(3) by (cases out) simp_all
      have "unat count \<le> length out" using o c(3) by (cases out) simp_all
      with body r o k0 t have "f rnd (Suc i) k out count = Some y"
        by (simp add: contains_take)
      from IH [OF this] c o show False by simp
    qed
  qed
qed

text \<open>
  The claim as stated fails on the stream whose draws are all 0. After 2000 ms of
  animation, with no long press and an array of \<open>MAX_SEL\<close> cells, the call with a
  requested count of 200 never returns: person 0 is picked first and every later draw is
  rejected as a duplicate. The call with a requested count of \<open>PEOPLE_NB\<close> does not
  return either.
\<close>

theorem selection_constant_stream_counterexample:
  "PEOPLE_NB < 200
   \<and> state (boot\<lparr>state := ANIMATING, nowMs := 2000\<rparr>) = ANIMATING
   \<and> ANIM_MS \<le> nowMs (boot\<lparr>state := ANIMATING, nowMs := 2000\<rparr>)
                 - stateEnterMs (boot\<lparr>state := ANIMATING, nowMs := 2000\<rparr>)
   \<and> length (selectedIdx (boot\<lparr>state := ANIMATING, nowMs := 2000\<rparr>)) = unat MAX_SEL
   \<and> dispatch (boot\<lparr>state := ANIMATING, nowMs := 2000, requestedCount := 200\<rparr>) 0 (\<lambda>n. 0) 0
       = None
   \<and> dispatch (boot\<lparr>state := ANIMATING, nowMs := 2000, requestedCount := PEOPLE_NB\<rparr>) 0
         (\<lambda>n. 0) 0 = None"
proof -
  let ?X = "boot\<lparr>state := ANIMATING, nowMs := 2000\<rparr>"
  have none: "\<And>i out. 0 < length out \<Longrightarrow> pickUniqueRandom (\<lambda>n. 0) i PEOPLE_NB out = None"
  proof -
    fix i :: nat and out :: "u8 list"
    assume l: "0 < length out"
    have k: "2 \<le> PEOPLE_NB" by (simp add: PEOPLE_NB_def UsedLEDs_def)
    show "pickUniqueRandom (\<lambda>n. 0) i PEOPLE_NB out = None"
    proof (cases "pickLoop (\<lambda>n. 0) i PEOPLE_NB out 0")
      case None
      then show ?thesis by (simp add: pickUniqueRandom_def)
    next
      case (Some y)
      from pickLoop_zero_stream [OF this] k l show ?thesis by simp
    qed
  qed
  have d: "\<And>c. PEOPLE_NB \<le> c \<Longrightarrow> dispatch (?X\<lparr>requestedCount := c\<rparr>) 0 (\<lambda>n. 0) 0 = None"
  proof -
    fix c :: u8
    assume c: "PEOPLE_NB \<le> c"
    let ?Y = "?X\<lparr>requestedCount := c\<rparr>"
    obtain sa ia where ra: "renderAnimating ?Y (\<lambda>n. 0) 0 = (sa, ia)"
      by (cases "renderAnimating ?Y (\<lambda>n. 0) 0")
    have sa: "nowMs sa = 2000" "stateEnterMs sa = 0" "selectedIdx sa = selectedIdx boot"
      "requestedCount sa = c"
      using renderAnimating_frame [of ?Y "\<lambda>n. 0" 0] ra by (simp_all add: boot_def)
    have cl: "clampCount c = PEOPLE_NB"
      using c clampCount_over [of c] clampCount_PEOPLE_NB by (cases "c = PEOPLE_NB") auto
    have "0 < length (selectedIdx sa)" by (simp add: sa boot_def MAX_SEL_def)
    from none [OF this] show "dispatch ?Y 0 (\<lambda>n. 0) 0 = None"
      by (simp add: dispatch_def caseAnimating_unfold [OF ra] sa cl ANIM_MS_def)
  qed
  have "PEOPLE_NB < 200" by (simp add: PEOPLE_NB_def UsedLEDs_def)
  moreover from this have "dispatch (?X\<lparr>requestedCount := 200\<rparr>) 0 (\<lambda>n. 0) 0 = None"
    by (intro d) simp
  moreover have "dispatch (?X\<lparr>requestedCount := PEOPLE_NB\<rparr>) 0 (\<lambda>n. 0) 0 = None"
    by (intro d) simp
  ultimately show ?thesis
    by (simp add: boot_def ANIM_MS_def)
qed

text \<open>
  The clamp is the caller's: \<open>pickUniqueRandom\<close> itself, asked for more people than there
  are, never returns a selection.
\<close>

lemma pickUniqueRandom_beyond_population:
  assumes "PEOPLE_NB < k"
  shows "pickUniqueRandom rnd i k out \<noteq> Some (Inr r)"
proof
  assume run: "pickUniqueRandom rnd i k out = Some (Inr r)"
  obtain out' i' where r: "r = (out', i')" by (cases r)
  from pickLoop_correct [OF run [unfolded pickUniqueRandom_def] picked_0] r
  have pk: "picked out' k" by simp
  let ?xs = "take (unat k) out'"
  have len: "length ?xs = unat k" using pk by (simp add: picked_def)
  have "card (unat ` set ?xs) = card (set ?xs)"
    by (rule card_image) (simp add: inj_on_def word_unat_eq_iff)
  also have "\<dots> = unat k" using pk len by (simp add: picked_def distinct_card)
  finally have c: "card (unat ` set ?xs) = unat k" .
  have "unat ` set ?xs \<subseteq> {0..<unat PEOPLE_NB}"
    using pk by (auto simp: picked_def word_less_nat_alt)
  then have "card (unat ` set ?xs) \<le> card {0..<unat PEOPLE_NB}"
    by (intro card_mono) simp_all
  with c assms show False by (simp add: word_less_nat_alt)
qed

section \<open>The button handler\<close>

lemma pollTicks_append:
  "pollTicks st (xs @ ys) =
     (let (es, st1) = pollTicks st xs; (fs, st2) = pollTicks st1 ys in (es @ fs, st2))"
  by (induction xs arbitrary: st) (auto simp: Let_def split: prod.splits)

lemma poll_press:
  assumes "lastButtonLevel st = HIGH" "\<not> longPressArmed st"
    and "DEBOUNCE_MS < t1 - lastButtonEdge st"
  shows "fst (pollButton (st\<lparr>nowMs := t1\<rparr>) LOW a) = 0
         \<and> down (snd (pollButton (st\<lparr>nowMs := t1\<rparr>) LOW a)) t1
         \<and> longPressArmed (snd (pollButton (st\<lparr>nowMs := t1\<rparr>) LOW a))"
  using assms
  by (simp add: pollButton_def Let_def down_def HIGH_def LOW_def LONG_PRESS_MS_def)

lemma poll_held:
  assumes "down st t1"
  shows "down (snd (pollButton (st\<lparr>nowMs := t\<rparr>) LOW a)) t1
     \<and> (if longPressArmed st \<and> LONG_PRESS_MS \<le> t - t1 \<and> a = LOW
         then fst (pollButton (st\<lparr>nowMs := t\<rparr>) LOW a) = 2
              \<and> \<not> longPressArmed (snd (pollButton (st\<lparr>nowMs := t\<rparr>) LOW a))
         else fst (pollButton (st\<lparr>nowMs := t\<rparr>) LOW a) = 0
              \<and> longPressArmed (snd (pollButton (st\<lparr>nowMs := t\<rparr>) LOW a)) = longPressArmed st)"
  using assms
  by (simp add: pollButton_def Let_def down_def)

lemma poll_release:
  assumes "down st t1" "DEBOUNCE_MS < r1 - t1"
  shows "fst (pollButton (st\<lparr>nowMs := r1\<rparr>) HIGH b)
           = (if longPressArmed st then (if LONG_PRESS_MS \<le> r1 - t1 then 2 else 1) else 0)
     \<and> lastButtonLevel (snd (pollButton (st\<lparr>nowMs := r1\<rparr>) HIGH b)) = HIGH
     \<and> \<not> longPressArmed (snd (pollButton (st\<lparr>nowMs := r1\<rparr>) HIGH b))"
  using assms
  by (simp add: pollButton_def Let_def down_def HIGH_def LOW_def)

lemma poll_up:
  assumes "lastButtonLevel st = HIGH" "\<not> longPressArmed st"
  shows "fst (pollButton (st\<lparr>nowMs := t\<rparr>) HIGH b) = 0
     \<and> lastButtonLevel (snd (pollButton (st\<lparr>nowMs := t\<rparr>) HIGH b)) = HIGH
     \<and> \<not> longPressArmed (snd (pollButton (st\<lparr>nowMs := t\<rparr>) HIGH b))"
  using assms
  by (simp add: pollButton_def Let_def)

lemma held_ticks:
  assumes "down st t1" and "\<forall>(t, l, a) \<in> set held. l = LOW \<and> t - t1 \<le> d"
  shows "down (snd (pollTicks st held)) t1
     \<and> (longPressArmed (snd (pollTicks st held)) = longPressArmed st
           \<and> reported (fst (pollTicks st held)) = []
         \<or> longPressArmed st \<and> \<not> longPressArmed (snd (pollTicks st held))
           \<and> reported (fst (pollTicks st held)) = [2] \<and> LONG_PRESS_MS \<le> d)"
  using assms
proof (induction held arbitrary: st)
  case Nil
  then show ?case by (simp add: reported_def)
next
  case (Cons x held)
  obtain t l a where x: "x = (t, l, a)" by (cases x)
  with Cons.prems have l: "l = LOW" and td: "t - t1 \<le> d" by simp_all
  let ?p = "pollButton (st\<lparr>nowMs := t\<rparr>) LOW a"
  note h = poll_held [OF Cons.prems(1), of t a]
  have rest: "\<forall>(t, l, a) \<in> set held. l = LOW \<and> t - t1 \<le> d" using Cons.prems(2) by simp
  from h have d1: "down (snd ?p) t1" by simp
  note ih = Cons.IH [OF d1 rest]
  have unf: "pollTicks st (x # held)
      = (fst ?p # fst (pollTicks (snd ?p) held), snd (pollTicks (snd ?p) held))"
    by (simp add: x l case_prod_beta)
  show ?case
  proof (cases "longPressArmed st \<and> LONG_PRESS_MS \<le> t - t1 \<and> a = LOW")
    case True
    with h have f: "fst ?p = 2" "\<not> longPressArmed (snd ?p)" by simp_all
    from True td have "LONG_PRESS_MS \<le> d" by (meson order_trans)
    with ih f True show ?thesis
      unfolding unf by (auto simp: reported_def)
  next
    case False
    with h have f: "fst ?p = 0" "longPressArmed (snd ?p) = longPressArmed st" by simp_all
    with ih show ?thesis
      unfolding unf by (auto simp: reported_def)
  qed
qed

lemma up_ticks:
  assumes "lastButtonLevel st = HIGH" "\<not> longPressArmed st"
    and "\<forall>(t, l, a) \<in> set ts. l = HIGH"
  shows "reported (fst (pollTicks st ts)) = []"
  using assms
proof (induction ts arbitrary: st)
  case Nil
  then show ?case by (simp add: reported_def)
next
  case (Cons x ts)
  obtain t l a where x: "x = (t, l, a)" by (cases x)
  with Cons.prems have l: "l = HIGH" by simp
  note u = poll_up [OF Cons.prems(1,2), of t a]
  have "reported (fst (pollTicks (snd (pollButton (st\<lparr>nowMs := t\<rparr>) HIGH a)) ts)) = []"
    using Cons.prems(3) u by (intro Cons.IH) simp_all
  with u show ?case
    by (simp add: x l case_prod_beta reported_def)
qed

text \<open>
  Claim C4. One press-and-release cycle seen by the button handler: the button is up and
  the handler idle; the pin reads \<open>LOW\<close> at \<open>t1\<close>, more than \<open>DEBOUNCE_MS\<close> after the
  last accepted edge; it reads \<open>LOW\<close> in the calls that follow, none later after \<open>t1\<close>
  than the release; it reads \<open>HIGH\<close> at \<open>r1\<close>, more than \<open>DEBOUNCE_MS\<close> after \<open>t1\<close>,
  and \<open>HIGH\<close> from then on. Times are compared as elapsed time since \<open>t1\<close>, so the
  statement holds across the wrap of \<open>millis()\<close>; the second pin read of each call is
  arbitrary. The handler reports exactly one event in the whole cycle: a long press when the
  button was down for at least \<open>LONG_PRESS_MS\<close>, a short press otherwise. A long press
  reported while the button is still down is not followed by another event at the release.
\<close>

theorem one_event_per_press:
  assumes "lastButtonLevel st = HIGH" and "\<not> longPressArmed st"
    and "DEBOUNCE_MS < t1 - lastButtonEdge st"
    and "\<forall>(t, l, a) \<in> set held. l = LOW \<and> t - t1 \<le> r1 - t1"
    and "DEBOUNCE_MS < r1 - t1"
    and "\<forall>(t, l, a) \<in> set after. l = HIGH"
  shows "reported (fst (pollTicks st ((t1, LOW, a1) # held @ (r1, HIGH, b1) # after)))
           = [if LONG_PRESS_MS \<le> r1 - t1 then 2 else 1]"
proof -
  let ?p1 = "pollButton (st\<lparr>nowMs := t1\<rparr>) LOW a1"
  let ?s1 = "snd ?p1"
  let ?h = "pollTicks ?s1 held"
  let ?s2 = "snd ?h"
  let ?p3 = "pollButton (?s2\<lparr>nowMs := r1\<rparr>) HIGH b1"
  let ?s3 = "snd ?p3"
  note p = poll_press [OF assms(1,2,3), of a1]
  from p have d1: "down ?s1 t1" by simp
  note hd = held_ticks [OF d1 assms(4)]
  from hd have d2: "down ?s2 t1" by simp
  note rl = poll_release [OF d2 assms(5), of b1]
  have up: "reported (fst (pollTicks ?s3 after)) = []"
    using rl assms(6) by (intro up_ticks) simp_all
  have "fst (pollTicks st ((t1, LOW, a1) # held @ (r1, HIGH, b1) # after))
      = fst ?p1 # fst ?h @ fst ?p3 # fst (pollTicks ?s3 after)"
    by (simp add: pollTicks_append case_prod_beta Let_def)
  then have "reported (fst (pollTicks st ((t1, LOW, a1) # held @ (r1, HIGH, b1) # after)))
      = reported [fst ?p1] @ reported (fst ?h) @ reported [fst ?p3]
          @ reported (fst (pollTicks ?s3 after))"
    by (simp add: reported_def)
  also have "\<dots> = [if LONG_PRESS_MS \<le> r1 - t1 then 2 else 1]"
    using p hd rl up by (auto simp: reported_def)
  finally show ?thesis .
qed

text \<open>
  A press from 100 ms to 1500 ms, polled at 500, 950 and 1200 ms while down: one long press
  (reported by the call at 950 ms). A press from 100 ms to 300 ms: one short press.
\<close>

theorem one_event_per_press_witness:
  "reported (fst (pollTicks boot
      ((100, LOW, LOW) # [(500, LOW, LOW), (950, LOW, LOW), (1200, LOW, LOW)]
         @ (1500, HIGH, HIGH) # [(1600, HIGH, HIGH)]))) = [2]
   \<and> reported (fst (pollTicks boot
      ((100, LOW, LOW) # [(200, LOW, LOW)] @ (300, HIGH, HIGH) # [(400, HIGH, HIGH)]))) = [1]"
proof -
  have b: "lastButtonLevel boot = HIGH" "\<not> longPressArmed boot"
    "DEBOUNCE_MS < 100 - lastButtonEdge boot"
    by (simp_all add: boot_def DEBOUNCE_MS_def)
  have l: "\<forall>(t, l, a) \<in> set [(500 :: u32, LOW, LOW), (950, LOW, LOW), (1200, LOW, LOW)].
             l = LOW \<and> t - 100 \<le> 1500 - 100"
    "DEBOUNCE_MS < (1500 :: u32) - 100" "\<forall>(t :: u32, l, a) \<in> set [(1600, HIGH, HIGH)]. l = HIGH"
    by (simp_all add: DEBOUNCE_MS_def)
  have s: "\<forall>(t, l, a) \<in> set [(200 :: u32, LOW, LOW)]. l = LOW \<and> t - 100 \<le> 300 - 100"
    "DEBOUNCE_MS < (300 :: u32) - 100" "\<forall>(t :: u32, l, a) \<in> set [(400, HIGH, HIGH)]. l = HIGH"
    by (simp_all add: DEBOUNCE_MS_def)
  from one_event_per_press [OF b l, of LOW HIGH] one_event_per_press [OF b s, of LOW HIGH]
  show ?thesis by (simp add: LONG_PRESS_MS_def)
qed

section \<open>The button handler inside \<open>loop\<close>\<close>

lemma withButton_self [simp]: "withButton s s = s"
  by (simp add: withButton_def)

lemma withButton_withButton [simp]: "withButton b (withButton c s) = withButton b s"
  by (simp add: withButton_def)

lemma withButton_fields [simp]:
  "state (withButton b s) = state s"
  "nowMs (withButton b s) = nowMs s"
  "requestedCount (withButton b s) = requestedCount s"
  "countWindowEnds (withButton b s) = countWindowEnds s"
  "stateEnterMs (withButton b s) = stateEnterMs s"
  "selectedIdx (withButton b s) = selectedIdx s"
  "selectedCount (withButton b s) = selectedCount s"
  "pixels (withButton b s) = pixels s"
  by (simp_all add: withButton_def)

lemma pollButton_withButton:
  "pollButton (withButton b s\<lparr>nowMs := t\<rparr>) l l2
     = (fst (pollButton (b\<lparr>nowMs := t\<rparr>) l l2),
        withButton (snd (pollButton (b\<lparr>nowMs := t\<rparr>) l l2)) (s\<lparr>nowMs := t\<rparr>))"
  by (simp add: pollButton_def withButton_def Let_def)

lemma renderIdle_withButton: "renderIdle (withButton b s) = withButton b (renderIdle s)"
  by (simp add: renderIdle_def withButton_def Let_def)

lemma renderAnimating_withButton:
  "renderAnimating (withButton b s) rnd i
     = (withButton b (fst (renderAnimating s rnd i)), snd (renderAnimating s rnd i))"
  by (simp add: renderAnimating_def withButton_def Let_def)

lemma renderShowSelection_withButton:
  "renderShowSelection (withButton b s) = map_sum id (withButton b) (renderShowSelection s)"
  by (simp add: renderShowSelection_def withButton_def split: sum.splits)

lemma enterState_withButton:
  "enterState (withButton b s) x = map_sum id (withButton b) (enterState s x)"
proof (cases x)
  case SHOW
  have "withButton b s\<lparr>state := SHOW, stateEnterMs := nowMs s\<rparr>
      = withButton b (s\<lparr>state := SHOW, stateEnterMs := nowMs s\<rparr>)"
    by (simp add: withButton_def)
  with SHOW show ?thesis
    by (simp add: enterState_def renderShowSelection_withButton)
qed (simp_all add: enterState_def withButton_def)

lemma withButton_update:
  "withButton b s\<lparr>requestedCount := c\<rparr> = withButton b (s\<lparr>requestedCount := c\<rparr>)"
  "withButton b s\<lparr>countWindowEnds := w\<rparr> = withButton b (s\<lparr>countWindowEnds := w\<rparr>)"
  "withButton b s\<lparr>pixels := p, shown := q\<rparr> = withButton b (s\<lparr>pixels := p, shown := q\<rparr>)"
  "withButton b s\<lparr>selectedCount := c\<rparr> = withButton b (s\<lparr>selectedCount := c\<rparr>)"
  "withButton b s\<lparr>selectedIdx := xs\<rparr> = withButton b (s\<lparr>selectedIdx := xs\<rparr>)"
  by (simp_all add: withButton_def)

lemma caseIdle_withButton:
  "caseIdle (withButton b s) btn = map_sum id (withButton b) (caseIdle s btn)"
  by (simp add: caseIdle_def Let_def renderIdle_withButton withButton_update
      enterState_withButton)

lemma countPress_withButton:
  "countPress (withButton b s) btn = withButton b (countPress s btn)"
  by (simp add: countPress_def Let_def withButton_update)

lemma caseCounting_withButton:
  "caseCounting (withButton b s) btn = map_sum id (withButton b) (caseCounting s btn)"
  by (simp add: caseCounting_def Let_def renderIdle_withButton countPress_withButton
      withButton_update enterState_withButton)

lemma caseShow_withButton:
  "caseShow (withButton b s) btn = map_sum id (withButton b) (caseShow s btn)"
  by (simp add: caseShow_def enterState_withButton)

lemma ret_withButton:
  "ret i (map_sum id (withButton b) r) = map_option (map_sum id (apfst (withButton b))) (ret i r)"
  by (cases r) (simp_all add: ret_def)

lemma caseAnimating_withButton:
  "caseAnimating (withButton b s) btn rnd i
     = map_option (map_sum id (apfst (withButton b))) (caseAnimating s btn rnd i)"
proof -
  obtain sa ia where ra: "renderAnimating s rnd i = (sa, ia)" by (cases "renderAnimating s rnd i")
  then have rb: "renderAnimating (withButton b s) rnd i = (withButton b sa, ia)"
    by (simp add: renderAnimating_withButton)
  have upd: "\<And>c xs. withButton b sa\<lparr>selectedCount := c, selectedIdx := xs\<rparr>
      = withButton b (sa\<lparr>selectedCount := c, selectedIdx := xs\<rparr>)"
    "withButton b sa\<lparr>state := IDLE, stateEnterMs := nowMs sa\<rparr>
      = withButton b (sa\<lparr>state := IDLE, stateEnterMs := nowMs sa\<rparr>)"
    by (simp_all add: withButton_def)
  show ?thesis
    unfolding caseAnimating_unfold [OF ra] caseAnimating_unfold [OF rb]
    by (simp add: upd enterState_withButton ret_withButton split: option.splits sum.splits)
qed

lemma dispatch_withButton:
  "dispatch (withButton b s) btn rnd i
     = map_option (map_sum id (apfst (withButton b))) (dispatch s btn rnd i)"
  by (cases "state s")
    (simp_all add: dispatch_def caseIdle_withButton caseCounting_withButton caseShow_withButton
      caseAnimating_withButton ret_withButton)

lemma loop_withButton:
  "loop (withButton b s) t l l2 rnd i
     = map_option (map_sum id (apfst (withButton (snd (pollButton (b\<lparr>nowMs := t\<rparr>) l l2)))))
         (dispatch (s\<lparr>nowMs := t\<rparr>) (fst (pollButton (b\<lparr>nowMs := t\<rparr>) l l2)) rnd i)"
proof -
  have "withButton b s\<lparr>nowMs := t\<rparr> = withButton b (s\<lparr>nowMs := t\<rparr>)"
    by (simp add: withButton_def)
  then show ?thesis
    unfolding loop_def pollButton_withButton
    by (simp add: dispatch_withButton)
qed

lemma run_withButton:
  "run (withButton b s) rnd i ts
     = map_option (map_sum id (apfst (withButton (snd (pollTicks b ts)))))
         (feed s rnd i (zip (map fst ts) (fst (pollTicks b ts))))"
proof (induction ts arbitrary: b s i)
  case Nil
  show ?case by simp
next
  case (Cons x ts)
  obtain t l l2 where x: "x = (t, l, l2)" by (cases x)
  let ?p = "pollButton (b\<lparr>nowMs := t\<rparr>) l l2"
  show ?case
  proof (cases "dispatch (s\<lparr>nowMs := t\<rparr>) (fst ?p) rnd i")
    case None
    then show ?thesis
      by (simp add: x loop_withButton case_prod_beta)
  next
    case (Some r)
    show ?thesis
    proof (cases r)
      case (Inl e)
      with Some show ?thesis
        by (simp add: x loop_withButton case_prod_beta)
    next
      case (Inr si)
      obtain s' i' where si: "si = (s', i')" by (cases si)
      from Some Inr si Cons.IH [of "snd ?p" s' i'] show ?thesis
        by (simp add: x loop_withButton case_prod_beta)
    qed
  qed
qed

text \<open>
  A run of \<open>loop\<close> is the run of the switch on the events that the button handler reports,
  with the variables of the button handler put back.
\<close>

lemma run_feed:
  "run st rnd i ts
     = map_option (map_sum id (apfst (withButton (snd (pollTicks st ts)))))
         (feed st rnd i (zip (map fst ts) (fst (pollTicks st ts))))"
  using run_withButton [of st st rnd i ts] by simp

section \<open>The counting window\<close>

lemma sint_small: "uint (w :: u32) < 2147483648 \<Longrightarrow> sint w = uint w"
proof -
  assume a: "uint w < 2147483648"
  have p: "(2 :: int) ^ 31 = 2147483648" by simp
  have "- (2 ^ 31) \<le> uint w" unfolding p using uint_ge_0 [of w] by linarith
  moreover have "uint w < 2 ^ 31" unfolding p by (rule a)
  ultimately have "signed_take_bit 31 (uint w) = uint w"
    by (rule signed_take_bit_int_eq_self)
  then show ?thesis by (simp add: sint_uint)
qed

lemma sint_large: "2147483648 \<le> uint (w :: u32) \<Longrightarrow> sint w = uint w - 4294967296"
proof -
  assume a: "2147483648 \<le> uint w"
  have b: "uint w < 4294967296" using uint_lt2p [of w] by simp
  have "(uint w + 2147483648) mod 4294967296 = uint w + 2147483648 - 4294967296"
    using a b by (simp add: mod_pos_geq)
  then have "take_bit 32 (uint w + 2 ^ 31) = uint w + 2147483648 - 4294967296"
    by (simp add: take_bit_eq_mod)
  then have "signed_take_bit 31 (uint w) = uint w - 4294967296"
    unfolding signed_take_bit_eq_take_bit_shift [of 31] by simp
  then show ?thesis by (simp add: sint_uint)
qed

lemma window_open:
  assumes "q - b < COUNT_WINDOW_MS"
  shows "\<not> 0 \<le> sint (q - (b + COUNT_WINDOW_MS))"
proof -
  let ?d = "q - b"
  have eq: "q - (b + 900) = ?d - 900" by simp
  have d: "uint ?d < 900" using assms by (simp add: COUNT_WINDOW_MS_def word_less_def)
  have "uint (?d - 900) = (uint ?d - 900) mod 4294967296"
    by (simp add: uint_word_ariths)
  also have "\<dots> = (uint ?d - 900 + 4294967296) mod 4294967296"
    by (metis mod_add_self2)
  also have "\<dots> = uint ?d - 900 + 4294967296"
    using d uint_ge_0 [of ?d] by (intro mod_pos_pos_trivial) linarith+
  finally have u: "uint (?d - 900) = uint ?d - 900 + 4294967296" .
  then have "2147483648 \<le> uint (?d - 900)" using uint_ge_0 [of ?d] by linarith
  from sint_large [OF this] u d have "sint (?d - 900) < 0" by linarith
  then show ?thesis unfolding COUNT_WINDOW_MS_def eq by linarith
qed

lemma window_closed:
  assumes "COUNT_WINDOW_MS \<le> f - b" "f - b < 2147483648"
  shows "0 \<le> sint (f - (b + COUNT_WINDOW_MS))"
proof -
  let ?d = "f - b"
  have eq: "f - (b + 900) = ?d - 900" by simp
  have d: "900 \<le> uint ?d" "uint ?d < 2147483648"
    using assms by (simp_all add: COUNT_WINDOW_MS_def word_le_def word_less_def)
  have "(900 :: u32) \<le> ?d" using assms(1) by (simp add: COUNT_WINDOW_MS_def)
  then have "uint (?d - 900) = uint ?d - uint (900 :: u32)"
    by (rule uint_minus_simple_alt [THEN iffD1])
  then have u: "uint (?d - 900) = uint ?d - 900" by simp
  with d have "uint (?d - 900) < 2147483648" "0 \<le> uint (?d - 900)" by linarith+
  from sint_small [OF this(1)] this(2) have "0 \<le> sint (?d - 900)" by linarith
  then show ?thesis unfolding COUNT_WINDOW_MS_def eq .
qed

lemma feed_append:
  "feed st rnd i (xs @ ys) =
     (case feed st rnd i xs of
        None \<Rightarrow> None
      | Some (Inl e) \<Rightarrow> Some (Inl e)
      | Some (Inr (st', i')) \<Rightarrow> feed st' rnd i' ys)"
  by (induction xs arbitrary: st i) (auto split: option.splits sum.splits)

lemma idle_press:
  assumes "state st = IDLE"
  shows "\<exists>st'. dispatch (st\<lparr>nowMs := p\<rparr>) 1 rnd i = Some (Inr (st', i))
     \<and> state st' = COUNTING \<and> requestedCount st' = 1
     \<and> countWindowEnds st' = p + COUNT_WINDOW_MS"
  using assms
  by (simp add: dispatch_def ret_def caseIdle_def Let_def enterState_def renderIdle_frame)

lemma count_quiet:
  assumes "state st = COUNTING" "countWindowEnds st = b + COUNT_WINDOW_MS"
    and "q - b < COUNT_WINDOW_MS"
  shows "\<exists>st'. dispatch (st\<lparr>nowMs := q\<rparr>) 0 rnd i = Some (Inr (st', i))
     \<and> state st' = COUNTING \<and> requestedCount st' = requestedCount st
     \<and> countWindowEnds st' = countWindowEnds st"
  using assms window_open [OF assms(3)]
  by (simp add: dispatch_def ret_def caseCounting_def countPress_def Let_def renderIdle_frame)

lemma count_press:
  assumes "state st = COUNTING"
  shows "\<exists>st'. dispatch (st\<lparr>nowMs := p\<rparr>) 1 rnd i = Some (Inr (st', i))
     \<and> state st' = COUNTING
     \<and> requestedCount st'
         = (if requestedCount st < MAX_REQUEST then requestedCount st + 1 else requestedCount st)
     \<and> countWindowEnds st' = p + COUNT_WINDOW_MS"
proof -
  have "p - p < COUNT_WINDOW_MS" by (simp add: COUNT_WINDOW_MS_def)
  from window_open [OF this] assms show ?thesis
    by (simp add: dispatch_def ret_def caseCounting_def countPress_def Let_def renderIdle_frame)
qed

lemma count_expire:
  assumes "state st = COUNTING" "countWindowEnds st = b + COUNT_WINDOW_MS"
    and "COUNT_WINDOW_MS \<le> f - b" "f - b < 2147483648"
    and "requestedCount st \<noteq> 0" "requestedCount st \<le> PEOPLE_NB"
  shows "\<exists>st'. dispatch (st\<lparr>nowMs := f\<rparr>) 0 rnd i = Some (Inr (st', i))
     \<and> state st' = ANIMATING \<and> requestedCount st' = requestedCount st"
proof -
  have "\<not> PEOPLE_NB < requestedCount st" using assms(6) by simp
  with assms window_closed [OF assms(3,4)] show ?thesis
    by (simp add: dispatch_def ret_def caseCounting_def countPress_def Let_def renderIdle_frame
        enterState_def)
qed

lemma feed_quiet:
  assumes "state st = COUNTING" "countWindowEnds st = b + COUNT_WINDOW_MS"
    and "\<forall>q \<in> set qs. q - b < COUNT_WINDOW_MS"
  shows "\<exists>st'. feed st rnd i (map (\<lambda>q. (q, 0)) qs) = Some (Inr (st', i))
     \<and> state st' = COUNTING \<and> requestedCount st' = requestedCount st
     \<and> countWindowEnds st' = countWindowEnds st"
  using assms
proof (induction qs arbitrary: st)
  case Nil
  then show ?case by simp
next
  case (Cons q qs)
  from count_quiet [OF Cons.prems(1,2), of q rnd i] Cons.prems(3) obtain s1 where
    1: "dispatch (st\<lparr>nowMs := q\<rparr>) 0 rnd i = Some (Inr (s1, i))" "state s1 = COUNTING"
    "requestedCount s1 = requestedCount st" "countWindowEnds s1 = countWindowEnds st"
    by auto
  from Cons.IH [of s1] 1 Cons.prems show ?case by simp
qed

lemma count_up:
  assumes "1 \<le> unat (c :: u8)" "unat c \<le> unat PEOPLE_NB"
  shows "unat (if c < MAX_REQUEST then c + 1 else c) = min (unat c + 1) (unat PEOPLE_NB)"
proof (cases "c < MAX_REQUEST")
  case True
  then have "c < PEOPLE_NB" by (simp add: MAX_REQUEST_def)
  from unat_succ [OF this] this True show ?thesis by (simp add: word_less_nat_alt)
next
  case False
  then have "unat c = unat PEOPLE_NB"
    using assms(2) by (simp add: MAX_REQUEST_def word_less_nat_alt)
  with False show ?thesis by simp
qed

lemma feed_presses:
  assumes "state st = COUNTING" "1 \<le> unat (requestedCount st)"
    "unat (requestedCount st) \<le> unat PEOPLE_NB"
    "countWindowEnds st = b + COUNT_WINDOW_MS"
    and "\<forall>(p, qs) \<in> set presses. \<forall>q \<in> set qs. q - p < COUNT_WINDOW_MS"
  shows "\<exists>st'. feed st rnd i (concat (map pressEvents presses)) = Some (Inr (st', i))
     \<and> state st' = COUNTING
     \<and> unat (requestedCount st')
         = min (unat (requestedCount st) + length presses) (unat PEOPLE_NB)
     \<and> countWindowEnds st' = last (b # map fst presses) + COUNT_WINDOW_MS"
  using assms
proof (induction presses arbitrary: st b)
  case Nil
  then show ?case by simp
next
  case (Cons x presses)
  obtain p qs where x: "x = (p, qs)" by (cases x)
  from count_press [OF Cons.prems(1), of p rnd i] obtain s1 where
    1: "dispatch (st\<lparr>nowMs := p\<rparr>) 1 rnd i = Some (Inr (s1, i))" "state s1 = COUNTING"
    "requestedCount s1
       = (if requestedCount st < MAX_REQUEST then requestedCount st + 1 else requestedCount st)"
    "countWindowEnds s1 = p + COUNT_WINDOW_MS"
    by blast
  have c1: "unat (requestedCount s1) = min (unat (requestedCount st) + 1) (unat PEOPLE_NB)"
    unfolding 1(3) by (rule count_up [OF Cons.prems(2,3)])
  have q: "\<forall>q \<in> set qs. q - p < COUNT_WINDOW_MS" using Cons.prems(5) x by simp
  from feed_quiet [OF 1(2,4) q, of rnd i] obtain s2 where
    2: "feed s1 rnd i (map (\<lambda>q. (q, 0)) qs) = Some (Inr (s2, i))" "state s2 = COUNTING"
    "requestedCount s2 = requestedCount s1" "countWindowEnds s2 = p + COUNT_WINDOW_MS"
    using 1(4) by auto
  have rest: "\<forall>(p, qs) \<in> set presses. \<forall>q \<in> set qs. q - p < COUNT_WINDOW_MS"
    using Cons.prems(5) by simp
  have b2: "1 \<le> unat (requestedCount s2)" "unat (requestedCount s2) \<le> unat PEOPLE_NB"
    using c1 2(3) Cons.prems(2,3) by simp_all
  from Cons.IH [OF 2(2) b2 2(4) rest] obtain s3 where
    3: "feed s2 rnd i (concat (map pressEvents presses)) = Some (Inr (s3, i))"
    "state s3 = COUNTING"
    "unat (requestedCount s3) = min (unat (requestedCount s2) + length presses) (unat PEOPLE_NB)"
    "countWindowEnds s3 = last (p # map fst presses) + COUNT_WINDOW_MS"
    by blast
  have "feed st rnd i (concat (map pressEvents (x # presses))) = Some (Inr (s3, i))"
    using 1(1) 2(1) 3(1) by (simp add: x pressEvents_def feed_append)
  moreover have "unat (requestedCount s3)
      = min (unat (requestedCount st) + length (x # presses)) (unat PEOPLE_NB)"
    using 3(3) 2(3) c1 by simp
  moreover have "countWindowEnds s3 = last (b # map fst (x # presses)) + COUNT_WINDOW_MS"
    using 3(4) by (simp add: x)
  ultimately show ?case using 3(2) by blast
qed

lemma feed_counting_window:
  assumes "state st = IDLE" and "presses \<noteq> []"
    and "\<forall>(p, qs) \<in> set presses. \<forall>q \<in> set qs. q - p < COUNT_WINDOW_MS"
    and "COUNT_WINDOW_MS \<le> tf - fst (last presses)" "tf - fst (last presses) < 2147483648"
  shows "\<exists>st'. feed st rnd i (concat (map pressEvents presses) @ [(tf, 0)]) = Some (Inr (st', i))
     \<and> state st' = ANIMATING
     \<and> unat (requestedCount st') = min (length presses) (unat PEOPLE_NB)"
proof -
  from assms(2) obtain p qs rest where pr: "presses = (p, qs) # rest"
    by (cases presses) auto
  from idle_press [OF assms(1), of p rnd i] obtain s1 where
    1: "dispatch (st\<lparr>nowMs := p\<rparr>) 1 rnd i = Some (Inr (s1, i))" "state s1 = COUNTING"
    "requestedCount s1 = 1" "countWindowEnds s1 = p + COUNT_WINDOW_MS"
    by blast
  have q: "\<forall>q \<in> set qs. q - p < COUNT_WINDOW_MS" using assms(3) pr by simp
  from feed_quiet [OF 1(2,4) q, of rnd i] obtain s2 where
    2: "feed s1 rnd i (map (\<lambda>q. (q, 0)) qs) = Some (Inr (s2, i))" "state s2 = COUNTING"
    "requestedCount s2 = 1" "countWindowEnds s2 = p + COUNT_WINDOW_MS"
    using 1(3,4) by auto
  have r: "\<forall>(p, qs) \<in> set rest. \<forall>q \<in> set qs. q - p < COUNT_WINDOW_MS"
    using assms(3) pr by simp
  have b2: "1 \<le> unat (requestedCount s2)" "unat (requestedCount s2) \<le> unat PEOPLE_NB"
    using 2(3) by (simp_all add: unat_PEOPLE_NB UsedLEDs_def)
  from feed_presses [OF 2(2) b2 2(4) r, of rnd i] obtain s3 where
    3: "feed s2 rnd i (concat (map pressEvents rest)) = Some (Inr (s3, i))"
    "state s3 = COUNTING"
    "unat (requestedCount s3) = min (unat (requestedCount s2) + length rest) (unat PEOPLE_NB)"
    "countWindowEnds s3 = last (p # map fst rest) + COUNT_WINDOW_MS"
    by blast
  have l: "last (p # map fst rest) = fst (last presses)"
    unfolding pr by (cases rest rule: rev_cases) simp_all
  have c3: "unat (requestedCount s3) = min (length presses) (unat PEOPLE_NB)"
    using 3(3) 2(3) pr by simp
  then have nz: "requestedCount s3 \<noteq> 0" "requestedCount s3 \<le> PEOPLE_NB"
    using pr by (auto simp: word_le_nat_alt unat_PEOPLE_NB UsedLEDs_def)
  from count_expire [OF 3(2) 3(4) [unfolded l] assms(4,5) nz, of rnd i] obtain s4 where
    4: "dispatch (s3\<lparr>nowMs := tf\<rparr>) 0 rnd i = Some (Inr (s4, i))" "state s4 = ANIMATING"
    "requestedCount s4 = requestedCount s3"
    by blast
  have "feed st rnd i (concat (map pressEvents presses) @ [(tf, 0)]) = Some (Inr (s4, i))"
    using 1(1) 2(1) 3(1) 4(1) by (simp add: pr pressEvents_def feed_append)
  with 4 c3 show ?thesis by simp
qed


lemma idle_quiet:
  assumes "state st = IDLE"
  shows "\<exists>st'. dispatch (st\<lparr>nowMs := q\<rparr>) 0 rnd i = Some (Inr (st', i)) \<and> state st' = IDLE"
  using assms
  by (simp add: dispatch_def ret_def caseIdle_def Let_def renderIdle_frame)

lemma feed_idle:
  assumes "state st = IDLE"
  shows "\<exists>st'. feed st rnd i (map (\<lambda>q. (q, 0)) qs) = Some (Inr (st', i)) \<and> state st' = IDLE"
  using assms
proof (induction qs arbitrary: st)
  case Nil
  then show ?case by simp
next
  case (Cons q qs)
  from idle_quiet [OF Cons.prems, of q rnd i] obtain s1 where
    1: "dispatch (st\<lparr>nowMs := q\<rparr>) 0 rnd i = Some (Inr (s1, i))" "state s1 = IDLE"
    by blast
  from Cons.IH [OF 1(2)] 1(1) show ?case by simp
qed

text \<open>
  Claim C6, as amended. A run of \<open>loop\<close> from \<open>IDLE\<close> in which the button handler
  reports, after some calls without an event, a series of short presses, each followed by
  calls without an event that come less than \<open>COUNT_WINDOW_MS\<close> after it, and then nothing
  in a call that comes \<open>COUNT_WINDOW_MS\<close> or more, and less than \<open>2^31\<close> ms, after the
  last press (the sketch compares the clock with the end of the window as a signed 32-bit
  difference). The first press enters \<open>COUNTING\<close> with a count of 1, every further press
  adds one up to \<open>PEOPLE_NB\<close>, and the last call moves to \<open>ANIMATING\<close> with a requested
  count equal to the number of presses, capped at \<open>PEOPLE_NB\<close>. Three presses in all give
  3; three presses after the one that entered \<open>COUNTING\<close> give 4.
\<close>

theorem counting_window:
  assumes "state st = IDLE" and "presses \<noteq> []"
    and "zip (map fst ts) (fst (pollTicks st ts))
           = map (\<lambda>q. (q, 0)) idle @ concat (map pressEvents presses) @ [(tf, 0)]"
    and "\<forall>(p, qs) \<in> set presses. \<forall>q \<in> set qs. q - p < COUNT_WINDOW_MS"
    and "COUNT_WINDOW_MS \<le> tf - fst (last presses)" "tf - fst (last presses) < 2147483648"
  shows "\<exists>st'. run st rnd i ts = Some (Inr (st', i))
     \<and> state st' = ANIMATING
     \<and> unat (requestedCount st') = min (length presses) (unat PEOPLE_NB)"
proof -
  from feed_idle [OF assms(1), of rnd i idle] obtain s1 where
    1: "feed st rnd i (map (\<lambda>q. (q, 0)) idle) = Some (Inr (s1, i))" "state s1 = IDLE"
    by blast
  from feed_counting_window [OF 1(2) assms(2,4,5,6), of rnd i] obtain s2 where
    2: "feed s1 rnd i (concat (map pressEvents presses) @ [(tf, 0)]) = Some (Inr (s2, i))"
    "state s2 = ANIMATING"
    "unat (requestedCount s2) = min (length presses) (unat PEOPLE_NB)"
    by blast
  have "feed st rnd i (zip (map fst ts) (fst (pollTicks st ts))) = Some (Inr (s2, i))"
    unfolding assms(3) using 1(1) 2(1) by (simp add: feed_append)
  then have "run st rnd i ts = Some (Inr (withButton (snd (pollTicks st ts)) s2, i))"
    by (simp add: run_feed)
  with 2 show ?thesis by simp
qed

text \<open>
  Three presses, released at 200, 400 and 600 ms, and a call at 1500 ms: the animation
  starts with a requested count of 3.
\<close>

theorem counting_window_witness:
  "\<exists>st'. run boot (\<lambda>n. n) 0
            [(100, LOW, LOW), (200, HIGH, HIGH), (300, LOW, LOW), (400, HIGH, HIGH),
             (500, LOW, LOW), (600, HIGH, HIGH), (1500, HIGH, HIGH)] = Some (Inr (st', 0))
     \<and> state st' = ANIMATING \<and> unat (requestedCount st') = 3"
proof -
  let ?ts = "[(100, LOW, LOW), (200, HIGH, HIGH), (300, LOW, LOW), (400, HIGH, HIGH),
             (500, LOW, LOW), (600, HIGH, HIGH), (1500, HIGH, HIGH)] :: tick list"
  let ?presses = "[(200, [300]), (400, [500]), (600, [])] :: (u32 \<times> u32 list) list"
  have e: "zip (map fst ?ts) (fst (pollTicks boot ?ts))
      = map (\<lambda>q. (q, 0)) [100] @ concat (map pressEvents ?presses) @ [(1500, 0)]"
    by code_simp
  have h: "state boot = IDLE" "?presses \<noteq> []"
    by (simp_all add: boot_def)
  have w: "\<forall>(p, qs) \<in> set ?presses. \<forall>q \<in> set qs. q - p < COUNT_WINDOW_MS"
    "COUNT_WINDOW_MS \<le> 1500 - fst (last ?presses)" "1500 - fst (last ?presses) < 2147483648"
    by (simp_all add: COUNT_WINDOW_MS_def)
  have "min (length ?presses) (unat PEOPLE_NB) = 3"
    by (simp add: unat_PEOPLE_NB UsedLEDs_def)
  with counting_window [OF h e w, of "\<lambda>n. n" 0] show ?thesis
    by (simp only:)
qed

text \<open>
  The claim as stated fails on a run from \<open>setup\<close>. A press released at 200 ms enters
  \<open>COUNTING\<close> with a count of 1. Then the button handler reports three short presses, at
  400, 600 and 800 ms, each less than \<open>COUNT_WINDOW_MS\<close> after the one before, and nothing
  more until 1800 ms. The call at 1800 ms starts the animation with a requested count of 4.
\<close>

theorem three_presses_after_entry_counterexample:
  "case setup_sketch of
     Some (Inr st0) \<Rightarrow>
       (case run st0 (\<lambda>n. n) 0 [(100, LOW, LOW), (200, HIGH, HIGH)] of
          Some (Inr (s1, i1)) \<Rightarrow>
            state s1 = COUNTING \<and> requestedCount s1 = 1
            \<and> fst (pollTicks s1
                  [(300, LOW, LOW), (400, HIGH, HIGH), (500, LOW, LOW), (600, HIGH, HIGH),
                   (700, LOW, LOW), (800, HIGH, HIGH), (1800, HIGH, HIGH)])
                = [0, 1, 0, 1, 0, 1, 0]
            \<and> (case run s1 (\<lambda>n. n) i1
                  [(300, LOW, LOW), (400, HIGH, HIGH), (500, LOW, LOW), (600, HIGH, HIGH),
                   (700, LOW, LOW), (800, HIGH, HIGH), (1800, HIGH, HIGH)] of
                 Some (Inr (s2, i2)) \<Rightarrow> state s2 = ANIMATING \<and> requestedCount s2 = 4
               | _ \<Rightarrow> False)
        | _ \<Rightarrow> False)
   | _ \<Rightarrow> False"
  by code_simp

end
